theory Spec2Isabelle
  imports Complex_Main
begin

text \<open>
  The notebook \<^verbatim>\<open>Normalizations.ipynb\<close> recomputes five normalizations (batch, layer,
  instance, group and weight normalization) from their formulas with the elementary
  operations of a tensor library. This theory models these operations on tensors of any
  shape (reductions over a list of dimensions, broadcasting, split, cat, norm, matrix
  product), with the exceptions they raise, then the formulas of the cells on top of
  them, and proves what the specification says about the formulas.
\<close>

section \<open>Scalars of a tensor\<close>

text \<open>
  The notebook computes on float32 tensors. The elements are modelled in exact
  arithmetic: a finite element is \<open>Some x\<close> with \<open>x\<close> a real number, and \<open>None\<close>
  stands for a result that is not a finite number (what the tensor library returns as
  \<open>nan\<close> or \<open>inf\<close>: a division by zero, the square root of a negative number, the mean
  of no element). Rounding is not modelled here; the division by a row norm, where it
  matters, is modelled on float32 numbers in a section of its own. The library raises
  no exception for such results: they are values, and every operation on them gives
  such a value again, which is how \<open>nan\<close> behaves; on finite inputs the programs below
  produce no other non-finite value than \<open>nan\<close>.
\<close>

type_synonym scalar = "real option"

definition fadd :: "scalar \<Rightarrow> scalar \<Rightarrow> scalar" where
  "fadd a b = (case a of None \<Rightarrow> None
               | Some x \<Rightarrow> (case b of None \<Rightarrow> None | Some y \<Rightarrow> Some (x + y)))"

definition fsub :: "scalar \<Rightarrow> scalar \<Rightarrow> scalar" where
  "fsub a b = (case a of None \<Rightarrow> None
               | Some x \<Rightarrow> (case b of None \<Rightarrow> None | Some y \<Rightarrow> Some (x - y)))"

definition fmul :: "scalar \<Rightarrow> scalar \<Rightarrow> scalar" where
  "fmul a b = (case a of None \<Rightarrow> None
               | Some x \<Rightarrow> (case b of None \<Rightarrow> None | Some y \<Rightarrow> Some (x * y)))"

definition fdiv :: "scalar \<Rightarrow> scalar \<Rightarrow> scalar" where
  "fdiv a b = (case a of None \<Rightarrow> None
               | Some x \<Rightarrow> (case b of None \<Rightarrow> None
                   | Some y \<Rightarrow> if y = 0 then None else Some (x / y)))"

definition fsqrt :: "scalar \<Rightarrow> scalar" where
  "fsqrt a = (case a of None \<Rightarrow> None
              | Some x \<Rightarrow> if x < 0 then None else Some (sqrt x))"

text \<open>The sum of a list of scalars; the sum of no element is 0.\<close>

definition fsum :: "scalar list \<Rightarrow> scalar" where
  "fsum vs = foldr fadd vs (Some 0)"

section \<open>Tensors\<close>

text \<open>
  A tensor is a shape and its elements in row-major order, as the library stores a
  contiguous tensor. A dimension may have size 0.
\<close>

record tensor =
  shape :: "nat list"
  elems :: "scalar list"

definition numel :: "nat list \<Rightarrow> nat" where
  "numel s = prod_list s"

definition wf_tensor :: "tensor \<Rightarrow> bool" where
  "wf_tensor t \<longleftrightarrow> length (elems t) = numel (shape t)"

text \<open>All elements are finite numbers.\<close>

definition finite_tensor :: "tensor \<Rightarrow> bool" where
  "finite_tensor t \<longleftrightarrow> list_all (\<lambda>v. v \<noteq> None) (elems t)"

text \<open>The multi-indices of a shape, in row-major order, and the offset of a multi-index.\<close>

definition indices :: "nat list \<Rightarrow> nat list list" where
  "indices s = product_lists (map (\<lambda>n. [0..<n]) s)"

fun ravel :: "nat list \<Rightarrow> nat list \<Rightarrow> nat" where
  "ravel (n # ns) (i # js) = i * numel ns + ravel ns js"
| "ravel _ _ = 0"

definition valid_index :: "nat list \<Rightarrow> nat list \<Rightarrow> bool" where
  "valid_index s idx \<longleftrightarrow> list_all2 (\<lambda>i n. i < n) idx s"

text \<open>
  Reading the element at a multi-index, and building a tensor from a function of the
  multi-index. \<open>get\<close> is used at valid indices only.
\<close>

definition get :: "tensor \<Rightarrow> nat list \<Rightarrow> scalar" where
  "get t idx = elems t ! ravel (shape t) idx"

definition tabulate :: "nat list \<Rightarrow> (nat list \<Rightarrow> scalar) \<Rightarrow> tensor" where
  "tabulate s f = \<lparr>shape = s, elems = map f (indices s)\<rparr>"

definition map_tensor :: "(scalar \<Rightarrow> scalar) \<Rightarrow> tensor \<Rightarrow> tensor" where
  "map_tensor f t = \<lparr>shape = shape t, elems = map f (elems t)\<rparr>"

section \<open>Errors of the tensor library\<close>

text \<open>
  The exceptions the library raises on the operations the notebook calls; each carries
  what the library's message reports.
\<close>

datatype error =
    IndexError_dim_out_of_range int int int
      \<comment> \<open>Dimension out of range (expected to be in range of [lo, hi], but got d)\<close>
  | RuntimeError_dim_repeated nat
      \<comment> \<open>dim d appears multiple times in the list of dims\<close>
  | RuntimeError_broadcast nat nat
      \<comment> \<open>The size of tensor a must match the size of tensor b at non-singleton dimension\<close>
  | RuntimeError_split_scalar
      \<comment> \<open>split expects at least a 1-dimensional tensor\<close>
  | RuntimeError_split_negative int
      \<comment> \<open>split expects split_size be non-negative\<close>
  | RuntimeError_split_zero nat
      \<comment> \<open>split_size can only be 0 if dimension size is 0\<close>
  | RuntimeError_cat_empty
      \<comment> \<open>expected a non-empty list of Tensors\<close>
  | RuntimeError_cat_scalar
      \<comment> \<open>zero-dimensional tensor cannot be concatenated\<close>
  | RuntimeError_cat_rank nat nat
      \<comment> \<open>Tensors must have same number of dimensions\<close>
  | RuntimeError_cat_sizes nat
      \<comment> \<open>Sizes of tensors must match except in dimension d\<close>
  | IndexError_too_many_indices nat
      \<comment> \<open>too many indices for tensor of dimension r\<close>
  | IndexError_index int nat
      \<comment> \<open>index i is out of bounds for dimension 0 with size n\<close>
  | IndexError_tuple
      \<comment> \<open>tuple index out of range (\<open>shape[0]\<close> of a 0-dimensional tensor)\<close>
  | RuntimeError_reshape nat nat
      \<comment> \<open>shape is invalid for input of size n\<close>
  | RuntimeError_matmul nat nat
      \<comment> \<open>mat1 and mat2 shapes cannot be multiplied\<close>
  | Matmul_not_modelled
      \<comment> \<open>an overload of the matrix product the notebook does not call\<close>

section \<open>Reductions over a list of dimensions\<close>

text \<open>
  A dimension is a Python integer; a negative one counts from the last dimension. A
  0-dimensional tensor accepts the dimensions -1 and 0.
\<close>

definition wrap_range :: "nat \<Rightarrow> int" where
  "wrap_range r = (if r = 0 then 1 else int r)"

definition maybe_wrap_dim :: "int \<Rightarrow> nat \<Rightarrow> error + nat" where
  "maybe_wrap_dim d r =
     (let n = wrap_range r
      in if d < - n \<or> n \<le> d then Inl (IndexError_dim_out_of_range (- n) (n - 1) d)
         else Inr (nat (if d < 0 then d + n else d)))"

text \<open>
  A reduction first resolves every dimension of the list, from left to right: the first
  one out of range raises.
\<close>

fun maybe_wrap_dims :: "int list \<Rightarrow> nat \<Rightarrow> error + nat list" where
  "maybe_wrap_dims [] r = Inr []"
| "maybe_wrap_dims (d # ds) r =
     (case maybe_wrap_dim d r of
        Inl e \<Rightarrow> Inl e
      | Inr k \<Rightarrow> (case maybe_wrap_dims ds r of Inl e \<Rightarrow> Inl e | Inr ks \<Rightarrow> Inr (k # ks)))"

text \<open>
  The resolved dimensions are then collected one after the other; the first one already
  seen raises.
\<close>

fun dim_list_to_bitset :: "nat list \<Rightarrow> nat list \<Rightarrow> error + nat list" where
  "dim_list_to_bitset [] seen = Inr seen"
| "dim_list_to_bitset (k # ks) seen =
     (if k \<in> set seen then Inl (RuntimeError_dim_repeated k)
      else dim_list_to_bitset ks (seen @ [k]))"

text \<open>An empty list of dimensions makes the library reduce over every dimension.\<close>

definition make_dim_mask :: "int list \<Rightarrow> nat \<Rightarrow> error + nat list" where
  "make_dim_mask dims r =
     (if dims = [] then Inr [0..<r]
      else case maybe_wrap_dims dims r of
             Inl e \<Rightarrow> Inl e
           | Inr ks \<Rightarrow> dim_list_to_bitset ks [])"

text \<open>
  The shape of the result: with \<open>keepdim\<close> a reduced dimension keeps size 1, without it
  the dimension is removed.
\<close>

definition reduced_shape :: "nat list \<Rightarrow> nat list \<Rightarrow> bool \<Rightarrow> nat list" where
  "reduced_shape s axs keepdim =
     (if keepdim then map (\<lambda>k. if k \<in> set axs then 1 else s ! k) [0..<length s]
      else map (\<lambda>k. s ! k) (filter (\<lambda>k. k \<notin> set axs) [0..<length s]))"

text \<open>
  The multi-indices of the input that one element of the result is computed from: the
  reduced dimensions range over their whole size, the others are fixed.
\<close>

definition group_indices :: "nat list \<Rightarrow> nat list \<Rightarrow> nat list \<Rightarrow> nat list list" where
  "group_indices s axs out =
     product_lists (map (\<lambda>k. if k \<in> set axs then [0..<s ! k] else [out ! k]) [0..<length s])"

definition reduce_with ::
  "(scalar list \<Rightarrow> scalar) \<Rightarrow> tensor \<Rightarrow> int list \<Rightarrow> bool \<Rightarrow> error + tensor" where
  "reduce_with f t dims keepdim =
     (case make_dim_mask dims (length (shape t)) of
        Inl e \<Rightarrow> Inl e
      | Inr axs \<Rightarrow>
          Inr \<lparr>shape = reduced_shape (shape t) axs keepdim,
               elems = map (\<lambda>out. f (map (get t) (group_indices (shape t) axs out)))
                           (indices (reduced_shape (shape t) axs True))\<rparr>)"

definition mean_of :: "scalar list \<Rightarrow> scalar" where
  "mean_of vs = fdiv (fsum vs) (Some (real (length vs)))"

text \<open>
  The variance divides the sum of the squared deviations by N - 1 when \<open>unbiased\<close>, by N
  otherwise.
\<close>

definition var_of :: "bool \<Rightarrow> scalar list \<Rightarrow> scalar" where
  "var_of unbiased vs =
     (let m = mean_of vs
      in fdiv (fsum (map (\<lambda>v. fmul (fsub v m) (fsub v m)) vs))
              (Some (real (length vs - (if unbiased then 1 else 0)))))"

text \<open>
  The L2 norm in exact arithmetic: the square root of the sum of the squares. The norm as
  float32 computes it, where a square can underflow, is \<open>norm_float32\<close> below.
\<close>

definition norm_of :: "scalar list \<Rightarrow> scalar" where
  "norm_of vs = fsqrt (fsum (map (\<lambda>v. fmul v v) vs))"

definition torch_mean :: "tensor \<Rightarrow> int list \<Rightarrow> bool \<Rightarrow> error + tensor" where
  "torch_mean t dims keepdim = reduce_with mean_of t dims keepdim"

definition torch_var :: "tensor \<Rightarrow> int list \<Rightarrow> bool \<Rightarrow> bool \<Rightarrow> error + tensor" where
  "torch_var t dims unbiased keepdim = reduce_with (var_of unbiased) t dims keepdim"

definition torch_sum :: "tensor \<Rightarrow> int list \<Rightarrow> bool \<Rightarrow> error + tensor" where
  "torch_sum t dims keepdim = reduce_with fsum t dims keepdim"

definition torch_norm :: "tensor \<Rightarrow> int list \<Rightarrow> bool \<Rightarrow> error + tensor" where
  "torch_norm t dims keepdim = reduce_with norm_of t dims keepdim"

section \<open>Elementwise operations with broadcasting\<close>

text \<open>
  Two shapes are aligned at their last dimension; two sizes are compatible when they
  are equal or one of them is 1. The sizes are given from the last dimension backwards.
\<close>

fun broadcast_rev :: "nat list \<Rightarrow> nat list \<Rightarrow> error + nat list" where
  "broadcast_rev [] ys = Inr ys"
| "broadcast_rev (x # xs) [] = Inr (x # xs)"
| "broadcast_rev (x # xs) (y # ys) =
     (if x = y \<or> y = 1 then
        (case broadcast_rev xs ys of Inl e \<Rightarrow> Inl e | Inr zs \<Rightarrow> Inr (x # zs))
      else if x = 1 then
        (case broadcast_rev xs ys of Inl e \<Rightarrow> Inl e | Inr zs \<Rightarrow> Inr (y # zs))
      else Inl (RuntimeError_broadcast x y))"

definition broadcast_shapes :: "nat list \<Rightarrow> nat list \<Rightarrow> error + nat list" where
  "broadcast_shapes a b =
     (case broadcast_rev (rev a) (rev b) of Inl e \<Rightarrow> Inl e | Inr zs \<Rightarrow> Inr (rev zs))"

text \<open>The index into an operand of shape \<open>s\<close> for an index of the broadcast result.\<close>

definition bcast_index :: "nat list \<Rightarrow> nat list \<Rightarrow> nat list" where
  "bcast_index s idx =
     map2 (\<lambda>n i. if n = 1 then 0 else i) s (drop (length idx - length s) idx)"

definition binop :: "(scalar \<Rightarrow> scalar \<Rightarrow> scalar) \<Rightarrow> tensor \<Rightarrow> tensor \<Rightarrow> error + tensor" where
  "binop f a b =
     (case broadcast_shapes (shape a) (shape b) of
        Inl e \<Rightarrow> Inl e
      | Inr s \<Rightarrow> Inr (tabulate s (\<lambda>idx. f (get a (bcast_index (shape a) idx))
                                         (get b (bcast_index (shape b) idx)))))"

definition torch_sub :: "tensor \<Rightarrow> tensor \<Rightarrow> error + tensor" where
  "torch_sub = binop fsub"

definition torch_mul :: "tensor \<Rightarrow> tensor \<Rightarrow> error + tensor" where
  "torch_mul = binop fmul"

definition torch_div :: "tensor \<Rightarrow> tensor \<Rightarrow> error + tensor" where
  "torch_div = binop fdiv"

definition add_scalar :: "tensor \<Rightarrow> real \<Rightarrow> tensor" where
  "add_scalar t c = map_tensor (\<lambda>v. fadd v (Some c)) t"

definition torch_sqrt :: "tensor \<Rightarrow> tensor" where
  "torch_sqrt t = map_tensor fsqrt t"

definition pow2 :: "tensor \<Rightarrow> tensor" where
  "pow2 t = map_tensor (\<lambda>v. fmul v v) t"

section \<open>Batch, layer and instance normalization\<close>

text \<open>
  The three cells compute the same three lines with their own dimensions:
  \<^verbatim>\<open>channel_mean = torch.mean(data, keepdim=True, dim=(0,2,3))\<close>,
  \<^verbatim>\<open>channel_var = torch.var(data, dim=(0,2,3), unbiased=False, keepdim=True)\<close>,
  \<^verbatim>\<open>our_BN = (data - channel_mean)/torch.sqrt(channel_var+1e-5)\<close>.
  \<open>Normalize\<close> is these lines with the dimensions as a parameter.
\<close>

definition eps :: real where
  "eps = 1 / 100000"

definition Normalize :: "tensor \<Rightarrow> int list \<Rightarrow> error + tensor" where
  "Normalize data dims =
     (case torch_mean data dims True of
        Inl e \<Rightarrow> Inl e
      | Inr channel_mean \<Rightarrow>
         (case torch_var data dims False True of
            Inl e \<Rightarrow> Inl e
          | Inr channel_var \<Rightarrow>
             (case torch_sub data channel_mean of
                Inl e \<Rightarrow> Inl e
              | Inr centered \<Rightarrow> torch_div centered (torch_sqrt (add_scalar channel_var eps)))))"

definition channel_mean :: "tensor \<Rightarrow> error + tensor" where
  "channel_mean data = torch_mean data [0, 2, 3] True"

definition channel_var :: "tensor \<Rightarrow> error + tensor" where
  "channel_var data = torch_var data [0, 2, 3] False True"

definition our_BN :: "tensor \<Rightarrow> error + tensor" where
  "our_BN data = Normalize data [0, 2, 3]"

definition layerNorm_output :: "tensor \<Rightarrow> error + tensor" where
  "layerNorm_output input_data = Normalize input_data [-1]"

definition instance_normalization_math :: "tensor \<Rightarrow> error + tensor" where
  "instance_normalization_math input_data = Normalize input_data [1]"

text \<open>The divisor of the last line, \<^verbatim>\<open>torch.sqrt(channel_var+1e-5)\<close>, on its own.\<close>

definition divisor :: "tensor \<Rightarrow> int list \<Rightarrow> error + tensor" where
  "divisor data dims =
     (case torch_var data dims False True of
        Inl e \<Rightarrow> Inl e
      | Inr v \<Rightarrow> Inr (torch_sqrt (add_scalar v eps)))"

section \<open>Group normalization\<close>

text \<open>
  \<^verbatim>\<open>self.narrow(dim, start, length)\<close>: the slice of \<open>length\<close> positions from \<open>start\<close>
  along the dimension \<open>d\<close>.
\<close>

definition narrow :: "tensor \<Rightarrow> nat \<Rightarrow> nat \<Rightarrow> nat \<Rightarrow> tensor" where
  "narrow t d start len =
     tabulate ((shape t)[d := len]) (\<lambda>idx. get t (idx[d := start + idx ! d]))"

text \<open>
  \<^verbatim>\<open>torch.split(tensor, split_size, dim)\<close> with an integer second argument: the chunks
  have \<open>split_size\<close> positions along \<open>dim\<close>, the last one what remains. A dimension of
  size 0 gives one chunk.
\<close>

definition torch_split :: "tensor \<Rightarrow> int \<Rightarrow> int \<Rightarrow> error + tensor list" where
  "torch_split t split_size d_arg =
     (if shape t = [] then Inl RuntimeError_split_scalar
      else if split_size < 0 then Inl (RuntimeError_split_negative split_size)
      else case maybe_wrap_dim d_arg (length (shape t)) of
        Inl e \<Rightarrow> Inl e
      | Inr d \<Rightarrow>
          let dim_size = shape t ! d in
          if split_size = 0 \<and> dim_size \<noteq> 0 then Inl (RuntimeError_split_zero dim_size)
          else
            let sz = nat split_size;
                num_splits = (if sz = 0 then 1 else max ((dim_size + sz - 1) div sz) 1);
                last_split_size = sz - (sz * num_splits - dim_size)
            in Inr (map (\<lambda>i. narrow t d (i * sz)
                                 (if i < num_splits - 1 then sz else last_split_size))
                        [0..<num_splits]))"

text \<open>The chunk that holds position \<open>p\<close> of the concatenation, and the position in it.\<close>

fun locate :: "nat list \<Rightarrow> nat \<Rightarrow> nat \<times> nat" where
  "locate [] p = (0, p)"
| "locate (n # ns) p =
     (if p < n then (0, p) else (case locate ns (p - n) of (k, q) \<Rightarrow> (Suc k, q)))"

text \<open>
  \<^verbatim>\<open>torch.cat(tensors, dim)\<close>. The tensors must have the same rank and the same sizes
  except along \<open>dim\<close>. (The library also skips tensors of shape \<open>(0,)\<close>; the notebook
  concatenates the normalized chunks of one tensor, which have the same rank.)
\<close>

definition torch_cat :: "tensor list \<Rightarrow> int \<Rightarrow> error + tensor" where
  "torch_cat ts d_arg =
     (case ts of
        [] \<Rightarrow> Inl RuntimeError_cat_empty
      | t0 # _ \<Rightarrow>
          if shape t0 = [] then Inl RuntimeError_cat_scalar
          else case maybe_wrap_dim d_arg (length (shape t0)) of
            Inl e \<Rightarrow> Inl e
          | Inr d \<Rightarrow>
             (case find (\<lambda>t. length (shape t) \<noteq> length (shape t0)) ts of
                Some t \<Rightarrow> Inl (RuntimeError_cat_rank (length (shape t0)) (length (shape t)))
              | None \<Rightarrow>
                 (case find (\<lambda>t. (shape t)[d := 0] \<noteq> (shape t0)[d := 0]) ts of
                    Some t \<Rightarrow> Inl (RuntimeError_cat_sizes d)
                  | None \<Rightarrow>
                      Inr (tabulate ((shape t0)[d := sum_list (map (\<lambda>t. shape t ! d) ts)])
                            (\<lambda>idx. case locate (map (\<lambda>t. shape t ! d) ts) (idx ! d) of
                                     (k, q) \<Rightarrow> get (ts ! k) (idx[d := q]))))))"

text \<open>
  The loop over the groups:
  \<^verbatim>\<open>for group in grouped_input: ... output_list.append(group_norm_output)\<close>,
  each group normalized over the dimensions \<open>(1,2)\<close>.
\<close>

fun group_loop :: "tensor list \<Rightarrow> tensor list \<Rightarrow> error + tensor list" where
  "group_loop [] output_list = Inr output_list"
| "group_loop (grp # rest) output_list =
     (case Normalize grp [1, 2] of
        Inl e \<Rightarrow> Inl e
      | Inr normalized \<Rightarrow> group_loop rest (output_list @ [normalized]))"

definition grouped_input :: "tensor \<Rightarrow> int \<Rightarrow> error + tensor list" where
  "grouped_input input_data num_groups = torch_split input_data num_groups (-1)"

definition group_norm_output :: "tensor \<Rightarrow> int \<Rightarrow> error + tensor" where
  "group_norm_output input_data num_groups =
     (case grouped_input input_data num_groups of
        Inl e \<Rightarrow> Inl e
      | Inr groups \<Rightarrow>
         (case group_loop groups [] of
            Inl e \<Rightarrow> Inl e
          | Inr output_list \<Rightarrow> torch_cat output_list (-1)))"

section \<open>Weight normalization\<close>

text \<open>\<^verbatim>\<open>weight[i,:]\<close>: the row \<open>i\<close> of a tensor of rank 2 or more.\<close>

definition select_row :: "tensor \<Rightarrow> int \<Rightarrow> error + tensor" where
  "select_row w i =
     (case shape w of
        [] \<Rightarrow> Inl (IndexError_too_many_indices 0)
      | [n] \<Rightarrow> Inl (IndexError_too_many_indices 1)
      | n # m # rest \<Rightarrow>
          let j = (if i < 0 then i + int n else i) in
          if j < 0 \<or> int n \<le> j then Inl (IndexError_index i n)
          else Inr (tabulate (m # rest) (\<lambda>idx. get w (nat j # idx))))"

text \<open>\<^verbatim>\<open>t.norm()\<close>: the square root of the sum of the squares of all elements.\<close>

definition norm_all :: "tensor \<Rightarrow> scalar" where
  "norm_all t = norm_of (elems t)"

text \<open>\<^verbatim>\<open>[linear.weight[i,:].norm() for i in torch.arange(rows)]\<close>\<close>

fun row_norms :: "tensor \<Rightarrow> int list \<Rightarrow> error + scalar list" where
  "row_norms w [] = Inr []"
| "row_norms w (i # rest) =
     (case select_row w i of
        Inl e \<Rightarrow> Inl e
      | Inr row \<Rightarrow>
         (case row_norms w rest of
            Inl e \<Rightarrow> Inl e
          | Inr vs \<Rightarrow> Inr (norm_all row # vs)))"

definition tensor_of_list :: "scalar list \<Rightarrow> tensor" where
  "tensor_of_list vs = \<lparr>shape = [length vs], elems = vs\<rparr>"

definition torch_reshape :: "tensor \<Rightarrow> nat list \<Rightarrow> error + tensor" where
  "torch_reshape t s =
     (if numel s = length (elems t) then Inr \<lparr>shape = s, elems = elems t\<rparr>
      else Inl (RuntimeError_reshape (numel s) (length (elems t))))"

text \<open>
  \<^verbatim>\<open>weight_magnitude = torch.tensor([...]).reshape(linear.weight.shape[0], 1)\<close> and
  \<^verbatim>\<open>weight_direction = linear.weight/weight_magnitude\<close>.
\<close>

definition weight_magnitude :: "tensor \<Rightarrow> error + tensor" where
  "weight_magnitude weight =
     (case shape weight of
        [] \<Rightarrow> Inl IndexError_tuple
      | rows # _ \<Rightarrow>
         (case row_norms weight (map int [0..<rows]) of
            Inl e \<Rightarrow> Inl e
          | Inr norms \<Rightarrow> torch_reshape (tensor_of_list norms) [rows, 1]))"

definition weight_direction :: "tensor \<Rightarrow> error + tensor" where
  "weight_direction weight =
     (case weight_magnitude weight of
        Inl e \<Rightarrow> Inl e
      | Inr magnitude \<Rightarrow> torch_div weight magnitude)"

text \<open>\<^verbatim>\<open>(weight_direction**2).sum(dim=-1)\<close>, printed as the norm of the direction.\<close>

definition direction_sq_sum :: "tensor \<Rightarrow> error + tensor" where
  "direction_sq_sum weight =
     (case weight_direction weight of
        Inl e \<Rightarrow> Inl e
      | Inr d \<Rightarrow> torch_sum (pow2 d) [-1] False)"

text \<open>\<^verbatim>\<open>weight_direction*weight_magnitude\<close>\<close>

definition recombined :: "tensor \<Rightarrow> error + tensor" where
  "recombined weight =
     (case weight_direction weight of
        Inl e \<Rightarrow> Inl e
      | Inr d \<Rightarrow>
         (case weight_magnitude weight of
            Inl e \<Rightarrow> Inl e
          | Inr magnitude \<Rightarrow> torch_mul d magnitude))"

text \<open>\<^verbatim>\<open>t.T\<close> reverses the dimensions; \<^verbatim>\<open>t.transpose(d0, d1)\<close> swaps two of them.\<close>

definition tensor_T :: "tensor \<Rightarrow> tensor" where
  "tensor_T t = tabulate (rev (shape t)) (\<lambda>idx. get t (rev idx))"

definition torch_transpose :: "tensor \<Rightarrow> int \<Rightarrow> int \<Rightarrow> error + tensor" where
  "torch_transpose t dim0 dim1 =
     (case maybe_wrap_dim dim0 (length (shape t)) of
        Inl e \<Rightarrow> Inl e
      | Inr d0 \<Rightarrow>
         (case maybe_wrap_dim dim1 (length (shape t)) of
            Inl e \<Rightarrow> Inl e
          | Inr d1 \<Rightarrow>
              Inr (tabulate ((shape t)[d0 := shape t ! d1, d1 := shape t ! d0])
                    (\<lambda>idx. get t (idx[d0 := idx ! d1, d1 := idx ! d0])))))"

text \<open>
  The matrix product \<^verbatim>\<open>a @ b\<close> as the notebook calls it: \<open>b\<close> is a matrix and \<open>a\<close>
  has rank 2 or more (a batch of matrices). The other overloads are not modelled.
\<close>

definition matmul :: "tensor \<Rightarrow> tensor \<Rightarrow> error + tensor" where
  "matmul a b =
     (if 2 \<le> length (shape a) \<and> length (shape b) = 2 then
        (let k = last (shape a) in
         if k \<noteq> hd (shape b) then Inl (RuntimeError_matmul k (hd (shape b)))
         else Inr (tabulate (butlast (shape a) @ [last (shape b)])
                    (\<lambda>idx. fsum (map (\<lambda>i. fmul (get a (butlast idx @ [i])) (get b [i, last idx]))
                                     [0..<k]))))
      else Inl Matmul_not_modelled)"

text \<open>
  \<^verbatim>\<open>linear(data)\<close> for a linear module without bias: the data times the transposed
  weight. \<^verbatim>\<open>data @ (weight_direction*weight_magnitude).T\<close> is the same product with the
  recombined weight.
\<close>

definition linear_module :: "tensor \<Rightarrow> tensor \<Rightarrow> error + tensor" where
  "linear_module weight data = matmul data (tensor_T weight)"

definition recombined_linear :: "tensor \<Rightarrow> tensor \<Rightarrow> error + tensor" where
  "recombined_linear weight data =
     (case recombined weight of
        Inl e \<Rightarrow> Inl e
      | Inr w \<Rightarrow> matmul data (tensor_T w))"

text \<open>
  The first weight normalization cell:
  \<^verbatim>\<open>direction = linear.weight/torch.norm(linear.weight.data, dim=1, keepdim=True)\<close>,
  \<^verbatim>\<open>wn_weight = magnitude * direction\<close> with \<^verbatim>\<open>magnitude = linear.weight_g\<close>, and
  \<^verbatim>\<open>wn_linear_output = input_data @ wn_weight.transpose(-1,-2)\<close>. The parameter
  \<open>weight_g\<close> comes from the library.
\<close>

definition direction :: "tensor \<Rightarrow> error + tensor" where
  "direction weight =
     (case torch_norm weight [1] True of
        Inl e \<Rightarrow> Inl e
      | Inr n \<Rightarrow> torch_div weight n)"

definition wn_weight :: "tensor \<Rightarrow> tensor \<Rightarrow> error + tensor" where
  "wn_weight weight_g weight =
     (case direction weight of
        Inl e \<Rightarrow> Inl e
      | Inr d \<Rightarrow> torch_mul weight_g d)"

definition wn_linear_output :: "tensor \<Rightarrow> tensor \<Rightarrow> tensor \<Rightarrow> error + tensor" where
  "wn_linear_output input_data weight_g weight =
     (case wn_weight weight_g weight of
        Inl e \<Rightarrow> Inl e
      | Inr w \<Rightarrow>
         (case torch_transpose w (-1) (-2) of
            Inl e \<Rightarrow> Inl e
          | Inr wt \<Rightarrow> matmul input_data wt))"

section \<open>Weight normalization in float32\<close>

text \<open>
  The weight of the linear layer is a float32 tensor, and whether a row norm is zero
  depends on the rounding: the square of a small element underflows. This section models
  the computation of the direction on float32 numbers. A float32 value is a finite real
  number, an infinity or \<open>nan\<close>; the two zeros are not distinguished (a norm is never the
  negative zero, so a division by a zero norm is a division by the positive zero).
  Subnormal numbers are kept, as in the default mode of the library.
\<close>

datatype float32 = Finite real | PosInf | NegInf | NaN

text \<open>Rounding to the nearest integer, a tie to the even one.\<close>

definition round_half_even :: "real \<Rightarrow> int" where
  "round_half_even x =
     (let f = \<lfloor>x\<rfloor> in
      if x - of_int f < 1 / 2 then f
      else if 1 / 2 < x - of_int f then f + 1
      else if even f then f else f + 1)"

text \<open>
  The float32 numbers of magnitude in \<open>[2^(e+23), 2^(e+24))\<close> are the multiples of \<open>2^e\<close>,
  for \<open>e\<close> from -149 to 104; below \<open>2^-126\<close> (the subnormal numbers) they are the
  multiples of \<open>2^-149\<close>. The exponent \<open>e\<close> for a real number is the largest one with
  \<open>2^(e+23)\<close> not above its magnitude, and -149 if there is none.
\<close>

definition ulp_exponent :: "real \<Rightarrow> int" where
  "ulp_exponent r =
     (case find (\<lambda>e. 2 powi (e + 23) \<le> \<bar>r\<bar>) (rev [-148..104]) of
        Some e \<Rightarrow> e
      | None \<Rightarrow> -149)"

text \<open>
  The result of an operation is its exact result rounded to the nearest float32 number,
  a tie to the even one; a rounded magnitude of \<open>2^128\<close> or more is an infinity.
\<close>

definition round_float32 :: "real \<Rightarrow> float32" where
  "round_float32 r =
     (let e = ulp_exponent r;
          v = of_int (round_half_even (r / 2 powi e)) * 2 powi e
      in if 2 ^ 128 \<le> v then PosInf else if v \<le> - (2 ^ 128) then NegInf else Finite v)"

text \<open>The operations on float32 values, with the infinities and \<open>nan\<close> of IEEE 754.\<close>

definition float32_mul :: "float32 \<Rightarrow> float32 \<Rightarrow> float32" where
  "float32_mul a b =
     (case a of
        NaN \<Rightarrow> NaN
      | Finite x \<Rightarrow>
          (case b of
             NaN \<Rightarrow> NaN
           | Finite y \<Rightarrow> round_float32 (x * y)
           | PosInf \<Rightarrow> if x = 0 then NaN else if 0 < x then PosInf else NegInf
           | NegInf \<Rightarrow> if x = 0 then NaN else if 0 < x then NegInf else PosInf)
      | PosInf \<Rightarrow>
          (case b of
             NaN \<Rightarrow> NaN
           | Finite y \<Rightarrow> if y = 0 then NaN else if 0 < y then PosInf else NegInf
           | PosInf \<Rightarrow> PosInf
           | NegInf \<Rightarrow> NegInf)
      | NegInf \<Rightarrow>
          (case b of
             NaN \<Rightarrow> NaN
           | Finite y \<Rightarrow> if y = 0 then NaN else if 0 < y then NegInf else PosInf
           | PosInf \<Rightarrow> NegInf
           | NegInf \<Rightarrow> PosInf))"

definition float32_add :: "float32 \<Rightarrow> float32 \<Rightarrow> float32" where
  "float32_add a b =
     (case a of
        NaN \<Rightarrow> NaN
      | Finite x \<Rightarrow> (case b of Finite y \<Rightarrow> round_float32 (x + y) | _ \<Rightarrow> b)
      | PosInf \<Rightarrow> (case b of NaN \<Rightarrow> NaN | NegInf \<Rightarrow> NaN | _ \<Rightarrow> PosInf)
      | NegInf \<Rightarrow> (case b of NaN \<Rightarrow> NaN | PosInf \<Rightarrow> NaN | _ \<Rightarrow> NegInf))"

definition float32_sqrt :: "float32 \<Rightarrow> float32" where
  "float32_sqrt a =
     (case a of
        Finite x \<Rightarrow> if x < 0 then NaN else round_float32 (sqrt x)
      | PosInf \<Rightarrow> PosInf
      | NegInf \<Rightarrow> NaN
      | NaN \<Rightarrow> NaN)"

definition float32_div :: "float32 \<Rightarrow> float32 \<Rightarrow> float32" where
  "float32_div a b =
     (case a of
        NaN \<Rightarrow> NaN
      | Finite x \<Rightarrow>
          (case b of
             NaN \<Rightarrow> NaN
           | Finite y \<Rightarrow>
               if y = 0 then (if x = 0 then NaN else if 0 < x then PosInf else NegInf)
               else round_float32 (x / y)
           | PosInf \<Rightarrow> Finite 0
           | NegInf \<Rightarrow> Finite 0)
      | PosInf \<Rightarrow>
          (case b of Finite y \<Rightarrow> if y < 0 then NegInf else PosInf | _ \<Rightarrow> NaN)
      | NegInf \<Rightarrow>
          (case b of Finite y \<Rightarrow> if y < 0 then PosInf else NegInf | _ \<Rightarrow> NaN))"

text \<open>
  The L2 norm of a row (\<^verbatim>\<open>weight[i,:].norm()\<close>, and \<^verbatim>\<open>torch.norm(weight, dim=1)\<close> for each
  row): the squares of the elements are added up and the square root is taken, each
  operation rounded. The squares are added from left to right.
\<close>

definition norm_float32 :: "float32 list \<Rightarrow> float32" where
  "norm_float32 row =
     float32_sqrt (foldl (\<lambda>acc v. float32_add acc (float32_mul v v)) (Finite 0) row)"

text \<open>
  A float32 matrix is the list of its rows. \<^verbatim>\<open>weight_magnitude\<close> is the column of the row
  norms and \<^verbatim>\<open>weight_direction = linear.weight/weight_magnitude\<close> divides each row by
  its norm.
\<close>

definition weight_magnitude_float32 :: "float32 list list \<Rightarrow> float32 list" where
  "weight_magnitude_float32 weight = map norm_float32 weight"

definition weight_direction_float32 :: "float32 list list \<Rightarrow> float32 list list" where
  "weight_direction_float32 weight =
     map (\<lambda>(row, m). map (\<lambda>v. float32_div v m) row)
         (zip weight (weight_magnitude_float32 weight))"

text \<open>\<^verbatim>\<open>direction = linear.weight/torch.norm(linear.weight.data, dim=1, keepdim=True)\<close>\<close>

definition direction_float32 :: "float32 list list \<Rightarrow> float32 list list" where
  "direction_float32 weight =
     map (\<lambda>row. map (\<lambda>v. float32_div v (norm_float32 row)) row) weight"

section \<open>Reading a result\<close>

text \<open>The element of a result at an index, and the shape of a result.\<close>

definition result_at :: "error + tensor \<Rightarrow> nat list \<Rightarrow> error + scalar" where
  "result_at r idx = (case r of Inl e \<Rightarrow> Inl e | Inr t \<Rightarrow> Inr (get t idx))"

definition result_shape :: "error + tensor \<Rightarrow> error + nat list" where
  "result_shape r = (case r of Inl e \<Rightarrow> Inl e | Inr t \<Rightarrow> Inr (shape t))"

text \<open>The number of tensors of a result.\<close>

definition result_count :: "error + tensor list \<Rightarrow> error + nat" where
  "result_count r = (case r of Inl e \<Rightarrow> Inl e | Inr ts \<Rightarrow> Inr (length ts))"

section \<open>Notions of the specification\<close>

text \<open>
  The declared reduction axes are in range for a tensor of rank \<open>r\<close> when each of them
  names a dimension of the tensor (\<open>-r \<le> d < r\<close>; -1 and 0 for a 0-dimensional tensor):
  the axes are compatible with the shape. The dimension an axis in range names, and the
  first axis of a list that is out of range.
\<close>

definition axis_in_range :: "nat \<Rightarrow> int \<Rightarrow> bool" where
  "axis_in_range r d \<longleftrightarrow> - wrap_range r \<le> d \<and> d < wrap_range r"

definition axes_in_range :: "nat \<Rightarrow> int list \<Rightarrow> bool" where
  "axes_in_range r dims = list_all (axis_in_range r) dims"

definition named_dim :: "nat \<Rightarrow> int \<Rightarrow> nat" where
  "named_dim r d = nat (d mod wrap_range r)"

definition first_out_of_range :: "nat \<Rightarrow> int list \<Rightarrow> int option" where
  "first_out_of_range r dims = find (\<lambda>d. \<not> axis_in_range r d) dims"

text \<open>
  The declared reduction axes fit a tensor of rank \<open>r\<close> when each of them names a dimension
  of the tensor (\<open>-r \<le> d < r\<close>; -1 and 0 for a 0-dimensional tensor) and no dimension
  is named twice.
\<close>

definition dims_ok :: "nat \<Rightarrow> int list \<Rightarrow> bool" where
  "dims_ok r dims \<longleftrightarrow>
     list_all (\<lambda>d. - wrap_range r \<le> d \<and> d < wrap_range r) dims \<and>
     distinct (map (\<lambda>d. d mod wrap_range r) dims)"

text \<open>The axes a reduction over \<open>dims\<close> reduces (all of them for the empty list).\<close>

definition reduced_axes :: "nat \<Rightarrow> int list \<Rightarrow> nat set" where
  "reduced_axes r dims =
     (if dims = [] then {0..<r} else (\<lambda>d. nat (d mod wrap_range r)) ` set dims)"

text \<open>The value of a finite element.\<close>

definition val_at :: "tensor \<Rightarrow> nat list \<Rightarrow> real" where
  "val_at x idx = the (get x idx)"

text \<open>
  The indices that agree with \<open>idx\<close> outside the axes \<open>A\<close>: the elements that are
  normalized together with the element at \<open>idx\<close>.
\<close>

definition same_group :: "nat list \<Rightarrow> nat set \<Rightarrow> nat list \<Rightarrow> nat list list" where
  "same_group s A idx =
     filter (\<lambda>j. \<forall>k \<in> set [0..<length s]. k \<notin> A \<longrightarrow> j ! k = idx ! k) (indices s)"

text \<open>
  The mean over the axes, and the biased (population) variance over the axes: the sum of
  the squared deviations from the mean divided by the number N of elements.
\<close>

definition mean_over :: "tensor \<Rightarrow> nat set \<Rightarrow> nat list \<Rightarrow> real" where
  "mean_over x A idx =
     sum_list (map (val_at x) (same_group (shape x) A idx))
       / real (length (same_group (shape x) A idx))"

definition var_over :: "tensor \<Rightarrow> nat set \<Rightarrow> nat list \<Rightarrow> real" where
  "var_over x A idx =
     sum_list (map (\<lambda>j. (val_at x j - mean_over x A idx)\<^sup>2) (same_group (shape x) A idx))
       / real (length (same_group (shape x) A idx))"

text \<open>
  The L2 norm of the row \<open>i\<close> of a matrix: the square root of the sum of the squares of
  its entries. A matrix has nonzero rows when none of these norms is 0.
\<close>

definition row_norm :: "tensor \<Rightarrow> nat \<Rightarrow> real" where
  "row_norm w i = sqrt (sum_list (map (\<lambda>j. (val_at w [i, j])\<^sup>2) [0..<shape w ! 1]))"

definition nonzero_rows :: "tensor \<Rightarrow> bool" where
  "nonzero_rows w \<longleftrightarrow> list_all (\<lambda>i. row_norm w i \<noteq> 0) [0..<shape w ! 0]"

text \<open>The column of the row norms: the magnitude, and the library's norm along dim 1.\<close>

definition norm_column :: "tensor \<Rightarrow> tensor" where
  "norm_column w = tabulate [shape w ! 0, 1] (\<lambda>idx. Some (row_norm w (idx ! 0)))"

text \<open>The weight divided by the column of the row norms: the direction of both cells.\<close>

definition direction_tensor :: "tensor \<Rightarrow> tensor" where
  "direction_tensor w =
     tabulate (shape w) (\<lambda>idx. fdiv (get w (bcast_index (shape w) idx))
                                  (get (norm_column w) (bcast_index [shape w ! 0, 1] idx)))"

text \<open>
  Group normalization of a tensor of shape (N, L, C) with the channels cut into chunks of
  \<open>width\<close> consecutive channels: the elements normalized together with the element at
  \<open>idx\<close> are those of the same sample whose channel lies in the same chunk, at any time
  step. \<open>chunk_normalized\<close> normalizes every element with the mean and the biased
  variance of its chunk.
\<close>

definition chunk_group :: "nat list \<Rightarrow> nat \<Rightarrow> nat list \<Rightarrow> nat list list" where
  "chunk_group s width idx =
     filter (\<lambda>j. j ! 0 = idx ! 0 \<and> j ! 2 div width = idx ! 2 div width) (indices s)"

definition chunk_mean :: "tensor \<Rightarrow> nat \<Rightarrow> nat list \<Rightarrow> real" where
  "chunk_mean x width idx =
     sum_list (map (val_at x) (chunk_group (shape x) width idx))
       / real (length (chunk_group (shape x) width idx))"

definition chunk_var :: "tensor \<Rightarrow> nat \<Rightarrow> nat list \<Rightarrow> real" where
  "chunk_var x width idx =
     sum_list (map (\<lambda>j. (val_at x j - chunk_mean x width idx)\<^sup>2) (chunk_group (shape x) width idx))
       / real (length (chunk_group (shape x) width idx))"

definition chunk_normalized :: "tensor \<Rightarrow> nat \<Rightarrow> tensor" where
  "chunk_normalized x width =
     tabulate (shape x)
       (\<lambda>idx. Some ((val_at x idx - chunk_mean x width idx) / sqrt (chunk_var x width idx + eps)))"

text \<open>
  The float32 matrix of a matrix of finite numbers. The square of a number underflows
  when it rounds to 0, which is when the square is at most \<open>2^-150\<close>: the magnitude of
  the number is at most \<open>2^-75\<close>. The result of dividing a finite number by zero. A
  float32 value is positive when it is \<open>+inf\<close> or a number that is at least the
  smallest positive float32 number.
\<close>

definition float32_matrix :: "real list list \<Rightarrow> float32 list list" where
  "float32_matrix w = map (map Finite) w"

definition square_underflows :: "real \<Rightarrow> bool" where
  "square_underflows x \<longleftrightarrow> x * x \<le> 2 powi (-150)"

definition division_by_zero :: "real \<Rightarrow> float32" where
  "division_by_zero x = (if x = 0 then NaN else if 0 < x then PosInf else NegInf)"

definition float32_positive :: "float32 \<Rightarrow> bool" where
  "float32_positive a =
     (case a of Finite v \<Rightarrow> 2 powi (-149) \<le> v | PosInf \<Rightarrow> True | NegInf \<Rightarrow> False
      | NaN \<Rightarrow> False)"

definition float32_nonneg :: "float32 \<Rightarrow> bool" where
  "float32_nonneg a \<longleftrightarrow> a = Finite 0 \<or> float32_positive a"


section \<open>Example inputs\<close>

text \<open>A 2 x 2 tensor with the rows (1, 3) and (2, 2).\<close>

definition example_data :: tensor where
  "example_data = \<lparr>shape = [2, 2], elems = [Some 1, Some 3, Some 2, Some 2]\<rparr>"

text \<open>A tensor of shape (2,3,4,4), all zero.\<close>

definition example_batch :: tensor where
  "example_batch = \<lparr>shape = [2, 3, 4, 4], elems = replicate 96 (Some 0)\<rparr>"

text \<open>A matrix with the rows (3, 4) and (0, 2).\<close>

definition example_weight :: tensor where
  "example_weight = \<lparr>shape = [2, 2], elems = [Some 3, Some 4, Some 0, Some 2]\<rparr>"

text \<open>
  A tensor of shape (1, 2, 4) with the time steps (1, 3, 2, 4) and (3, 1, 4, 2), and a
  tensor of shape (1, 1, 0), which has no channel.
\<close>

definition example_sequence :: tensor where
  "example_sequence =
     \<lparr>shape = [1, 2, 4],
      elems = [Some 1, Some 3, Some 2, Some 4, Some 3, Some 1, Some 4, Some 2]\<rparr>"

definition example_no_channel :: tensor where
  "example_no_channel = \<lparr>shape = [1, 1, 0], elems = []\<rparr>"

text \<open>The tensor of shape (N, L, C) that is 1 on the channel 0 and 0 elsewhere.\<close>

definition first_channel :: "nat \<Rightarrow> nat \<Rightarrow> nat \<Rightarrow> tensor" where
  "first_channel N L C = tabulate [N, L, C] (\<lambda>idx. Some (if idx ! 2 = 0 then 1 else 0))"

text \<open>
  A float32 matrix with the only row \<open>(2^-100, 0)\<close>, and one with the rows (1, 0) and
  (0, 0).
\<close>

definition example_underflow :: "real list list" where
  "example_underflow = [[1 / 2 ^ 100, 0]]"

definition example_rows :: "real list list" where
  "example_rows = [[1, 0], [0, 0]]"

section \<open>Basic facts about indices\<close>

lemma numel_Nil [simp]: "numel [] = 1"
  by (simp add: numel_def)

lemma numel_Cons [simp]: "numel (n # ns) = n * numel ns"
  by (simp add: numel_def)

lemma indices_Nil [simp]: "indices [] = [[]]"
  by (simp add: indices_def)

lemma indices_Cons:
  "indices (n # ns) = concat (map (\<lambda>i. map ((#) i) (indices ns)) [0..<n])"
  by (simp add: indices_def)

lemma concat_blocks_upt:
  "concat (map (\<lambda>i. map (\<lambda>k. i * m + k) [0..<m]) [0..<n]) = [0..<n * m]"
proof (induction n)
  case 0
  show ?case by simp
next
  case (Suc n)
  have "map (\<lambda>k. n * m + k) [0..<m] = map (\<lambda>k. k + n * m) [0..<m]"
    by (rule map_cong) simp_all
  also have "\<dots> = [n * m..<m + n * m]"
    by (rule map_add_upt)
  finally have blk: "map (\<lambda>k. n * m + k) [0..<m] = [n * m..<m + n * m]" .
  have "[0..<Suc n * m] = [0..<n * m + m]"
    by (simp only: mult_Suc add.commute)
  also have "\<dots> = [0..<n * m] @ [n * m..<n * m + m]"
    by (rule upt_add_eq_append) simp
  also have "\<dots> = [0..<n * m] @ [n * m..<m + n * m]"
    by (simp only: add.commute)
  finally have "[0..<Suc n * m] = [0..<n * m] @ [n * m..<m + n * m]" .
  with Suc blk show ?case
    by simp
qed

lemma map_ravel_indices: "map (ravel s) (indices s) = [0..<numel s]"
proof (induction s)
  case Nil
  show ?case by simp
next
  case (Cons n ns)
  have "map (ravel (n # ns)) (indices (n # ns))
      = concat (map (\<lambda>i. map (\<lambda>js. i * numel ns + ravel ns js) (indices ns)) [0..<n])"
    by (simp add: indices_Cons map_concat comp_def)
  also have "\<dots> = concat (map (\<lambda>i. map (\<lambda>k. i * numel ns + k) (map (ravel ns) (indices ns))) [0..<n])"
    by (simp add: comp_def)
  also have "\<dots> = [0..<n * numel ns]"
    by (simp only: Cons.IH concat_blocks_upt)
  finally show ?case by simp
qed

lemma length_indices [simp]: "length (indices s) = numel s"
proof -
  have "length (map (ravel s) (indices s)) = length [0..<numel s]"
    by (simp only: map_ravel_indices)
  then show ?thesis by simp
qed

lemma set_indices: "set (indices s) = {idx. valid_index s idx}"
  by (auto simp: indices_def product_lists_set valid_index_def list_all2_conv_all_nth)

lemma distinct_indices: "distinct (indices s)"
  unfolding indices_def by (rule distinct_product_lists) auto

lemma valid_index_length: "valid_index s idx \<Longrightarrow> length idx = length s"
  by (simp add: valid_index_def list_all2_lengthD)

lemma valid_index_nth: "valid_index s idx \<Longrightarrow> k < length s \<Longrightarrow> idx ! k < s ! k"
  by (simp add: valid_index_def list_all2_conv_all_nth)

lemma ravel_nth_indices: "k < numel s \<Longrightarrow> ravel s (indices s ! k) = k"
proof -
  assume k: "k < numel s"
  then have "map (ravel s) (indices s) ! k = [0..<numel s] ! k"
    by (simp only: map_ravel_indices)
  with k show ?thesis by simp
qed

lemma ravel_valid:
  assumes "valid_index s idx"
  shows "ravel s idx < numel s" and "indices s ! ravel s idx = idx"
proof -
  from assms have "idx \<in> set (indices s)"
    by (simp add: set_indices)
  then obtain k where k: "k < numel s" and idx: "indices s ! k = idx"
    by (auto simp: in_set_conv_nth)
  from k idx have "ravel s idx = k"
    using ravel_nth_indices by blast
  with k idx show "ravel s idx < numel s" and "indices s ! ravel s idx = idx"
    by simp_all
qed

lemma shape_tabulate [simp]: "shape (tabulate s f) = s"
  by (simp add: tabulate_def)

lemma wf_tabulate [simp]: "wf_tensor (tabulate s f)"
  by (simp add: tabulate_def wf_tensor_def)

lemma get_tabulate: "valid_index s idx \<Longrightarrow> get (tabulate s f) idx = f idx"
  by (simp add: get_def tabulate_def ravel_valid)

lemma tabulate_get: "wf_tensor t \<Longrightarrow> tabulate (shape t) (get t) = t"
proof -
  assume wf: "wf_tensor t"
  have "map (get t) (indices (shape t)) = elems t"
  proof (rule nth_equalityI)
    show "length (map (get t) (indices (shape t))) = length (elems t)"
      using wf by (simp add: wf_tensor_def)
  next
    fix k assume "k < length (map (get t) (indices (shape t)))"
    then have "k < numel (shape t)" by simp
    then show "map (get t) (indices (shape t)) ! k = elems t ! k"
      by (simp add: get_def ravel_nth_indices)
  qed
  then show ?thesis by (simp add: tabulate_def)
qed

lemma tensor_eqI:
  assumes "wf_tensor a" and "wf_tensor b" and "shape a = shape b"
    and "\<And>idx. valid_index (shape a) idx \<Longrightarrow> get a idx = get b idx"
  shows "a = b"
proof -
  have "map (get a) (indices (shape a)) = map (get b) (indices (shape a))"
    using assms(4) by (simp add: set_indices)
  then have "tabulate (shape a) (get a) = tabulate (shape b) (get b)"
    by (simp add: tabulate_def assms(3))
  with assms(1,2) show ?thesis by (simp add: tabulate_get)
qed

section \<open>Scalars\<close>

lemma fsum_Some: "fsum (map Some rs) = Some (sum_list rs)"
  by (induction rs) (simp_all add: fsum_def fadd_def)

lemma mean_of_Some:
  "mean_of (map Some rs) = (if rs = [] then None else Some (sum_list rs / real (length rs)))"
  by (simp add: mean_of_def fsum_Some fdiv_def)

lemma var_of_Some:
  assumes "rs \<noteq> []"
  shows "var_of False (map Some rs)
       = Some (sum_list (map (\<lambda>v. (v - sum_list rs / real (length rs))\<^sup>2) rs) / real (length rs))"
proof -
  let ?m = "sum_list rs / real (length rs)"
  have "map (\<lambda>v. fmul (fsub v (Some ?m)) (fsub v (Some ?m))) (map Some rs)
      = map Some (map (\<lambda>v. (v - ?m)\<^sup>2) rs)"
    by (simp add: fmul_def fsub_def power2_eq_square)
  moreover have "mean_of (map Some rs) = Some ?m"
    using assms by (simp add: mean_of_Some)
  ultimately have "var_of False (map Some rs)
      = fdiv (Some (sum_list (map (\<lambda>v. (v - ?m)\<^sup>2) rs))) (Some (real (length rs)))"
    by (simp only: var_of_def Let_def fsum_Some if_False minus_nat.diff_0 length_map)
  with assms show ?thesis
    by (simp add: fdiv_def)
qed

section \<open>Resolving the dimensions\<close>

lemma wrap_range_pos [simp]: "0 < wrap_range r"
  by (simp add: wrap_range_def)

lemma maybe_wrap_dim_ok:
  assumes "- wrap_range r \<le> d" and "d < wrap_range r"
  shows "maybe_wrap_dim d r = Inr (nat (d mod wrap_range r))"
proof -
  have "d mod wrap_range r = d + wrap_range r" if "d < 0"
  proof -
    have "(d + wrap_range r) mod wrap_range r = d + wrap_range r"
      using assms that by (intro mod_pos_pos_trivial) simp_all
    then show ?thesis by simp
  qed
  moreover have "d mod wrap_range r = d" if "0 \<le> d"
    using assms that by simp
  ultimately show ?thesis
    using assms unfolding maybe_wrap_dim_def Let_def by (cases "d < 0") auto
qed

lemma maybe_wrap_dim_fail:
  assumes "\<not> (- wrap_range r \<le> d \<and> d < wrap_range r)"
  shows "maybe_wrap_dim d r
       = Inl (IndexError_dim_out_of_range (- wrap_range r) (wrap_range r - 1) d)"
  using assms unfolding maybe_wrap_dim_def Let_def by auto

lemma maybe_wrap_dims_ok:
  assumes "list_all (\<lambda>d. - wrap_range r \<le> d \<and> d < wrap_range r) dims"
  shows "maybe_wrap_dims dims r = Inr (map (\<lambda>d. nat (d mod wrap_range r)) dims)"
  using assms by (induction dims) (simp_all add: maybe_wrap_dim_ok)

lemma maybe_wrap_dims_fail:
  assumes "find (\<lambda>d. \<not> (- wrap_range r \<le> d \<and> d < wrap_range r)) dims = Some d"
  shows "maybe_wrap_dims dims r
       = Inl (IndexError_dim_out_of_range (- wrap_range r) (wrap_range r - 1) d)"
  using assms
proof (induction dims)
  case Nil
  then show ?case by simp
next
  case (Cons a ds)
  show ?case
  proof (cases "- wrap_range r \<le> a \<and> a < wrap_range r")
    case True
    with Cons show ?thesis by (simp add: maybe_wrap_dim_ok)
  next
    case False
    with Cons.prems have "a = d" by simp
    with False show ?thesis by (simp add: maybe_wrap_dim_fail)
  qed
qed

lemma dim_list_to_bitset_ok:
  assumes "distinct ks" and "set ks \<inter> set seen = {}"
  shows "dim_list_to_bitset ks seen = Inr (seen @ ks)"
  using assms
proof (induction ks arbitrary: seen)
  case Nil
  show ?case by simp
next
  case (Cons k ks)
  from Cons.prems have "dim_list_to_bitset ks (seen @ [k]) = Inr ((seen @ [k]) @ ks)"
    by (intro Cons.IH) auto
  with Cons.prems show ?case by simp
qed

lemma dim_list_to_bitset_fail:
  assumes "distinct seen" and "\<not> distinct (seen @ ks)"
  shows "\<exists>i<length ks. dim_list_to_bitset ks seen = Inl (RuntimeError_dim_repeated (ks ! i))
           \<and> ks ! i \<in> set (seen @ take i ks) \<and> distinct (seen @ take i ks)"
  using assms
proof (induction ks arbitrary: seen)
  case Nil
  then show ?case by simp
next
  case (Cons k ks)
  show ?case
  proof (cases "k \<in> set seen")
    case True
    with Cons.prems(1) show ?thesis
      by (intro exI [of _ 0]) simp
  next
    case False
    with Cons.prems have d: "distinct (seen @ [k])" and nd: "\<not> distinct ((seen @ [k]) @ ks)"
      by auto
    from Cons.IH [OF d nd] obtain i
      where i: "i < length ks"
        and r: "dim_list_to_bitset ks (seen @ [k]) = Inl (RuntimeError_dim_repeated (ks ! i))"
        and m: "ks ! i \<in> set ((seen @ [k]) @ take i ks)"
        and di: "distinct ((seen @ [k]) @ take i ks)"
      by blast
    from i r m di False show ?thesis
      by (intro exI [of _ "Suc i"]) auto
  qed
qed

lemma distinct_map_nat_mod:
  "distinct (map (\<lambda>d. nat (d mod wrap_range r)) dims)
     \<longleftrightarrow> distinct (map (\<lambda>d. d mod wrap_range r) dims)"
proof -
  have "map (\<lambda>d. nat (d mod wrap_range r)) dims = map nat (map (\<lambda>d. d mod wrap_range r) dims)"
    by simp
  moreover have "inj_on nat (set (map (\<lambda>d. d mod wrap_range r) dims))"
  proof (rule inj_onI)
    fix a b
    assume "a \<in> set (map (\<lambda>d. d mod wrap_range r) dims)"
      and "b \<in> set (map (\<lambda>d. d mod wrap_range r) dims)" and ab: "nat a = nat b"
    then have "0 \<le> a" and "0 \<le> b" by auto
    with ab show "a = b" by simp
  qed
  ultimately show ?thesis
    by (simp only: distinct_map) auto
qed

lemma dims_ok_iff:
  "dims_ok r dims \<longleftrightarrow> axes_in_range r dims \<and> distinct (map (named_dim r) dims)"
  by (simp add: dims_ok_def axes_in_range_def axis_in_range_def [abs_def]
      named_dim_def [abs_def] distinct_map_nat_mod [symmetric])

lemma make_dim_mask_ok:
  assumes "dims_ok r dims"
  shows "\<exists>axs. make_dim_mask dims r = Inr axs \<and> set axs = reduced_axes r dims"
proof (cases "dims = []")
  case True
  then show ?thesis by (simp add: make_dim_mask_def reduced_axes_def)
next
  case False
  from assms have "maybe_wrap_dims dims r = Inr (map (\<lambda>d. nat (d mod wrap_range r)) dims)"
    by (intro maybe_wrap_dims_ok) (simp add: dims_ok_def)
  moreover from assms have "dim_list_to_bitset (map (\<lambda>d. nat (d mod wrap_range r)) dims) []
      = Inr ([] @ map (\<lambda>d. nat (d mod wrap_range r)) dims)"
    by (intro dim_list_to_bitset_ok) (simp_all add: dims_ok_def distinct_map_nat_mod)
  ultimately show ?thesis
    using False by (simp add: make_dim_mask_def reduced_axes_def)
qed

lemma first_out_of_range_Some:
  assumes "\<not> axes_in_range r dims"
  shows "\<exists>d. first_out_of_range r dims = Some d \<and> d \<in> set dims \<and> \<not> axis_in_range r d"
  using assms
  by (induction dims) (auto simp: axes_in_range_def first_out_of_range_def)

lemma first_out_of_range_None:
  assumes "axes_in_range r dims"
  shows "first_out_of_range r dims = None"
  using assms
  by (induction dims) (auto simp: axes_in_range_def first_out_of_range_def)

lemma make_dim_mask_out_of_range:
  assumes "first_out_of_range r dims = Some d"
  shows "make_dim_mask dims r
       = Inl (IndexError_dim_out_of_range (- wrap_range r) (wrap_range r - 1) d)"
proof -
  from assms have ne: "dims \<noteq> []"
    by (auto simp: first_out_of_range_def)
  from assms have "maybe_wrap_dims dims r
       = Inl (IndexError_dim_out_of_range (- wrap_range r) (wrap_range r - 1) d)"
    by (intro maybe_wrap_dims_fail) (simp add: first_out_of_range_def axis_in_range_def [abs_def])
  with ne show ?thesis
    by (simp add: make_dim_mask_def)
qed

lemma make_dim_mask_repeated:
  assumes "axes_in_range r dims" and "\<not> distinct (map (named_dim r) dims)"
  shows "\<exists>i<length dims.
           make_dim_mask dims r = Inl (RuntimeError_dim_repeated (named_dim r (dims ! i)))
         \<and> named_dim r (dims ! i) \<in> set (map (named_dim r) (take i dims))
         \<and> distinct (map (named_dim r) (take i dims))"
proof -
  from assms(2) have ne: "dims \<noteq> []"
    by auto
  from assms(1) have w: "maybe_wrap_dims dims r = Inr (map (named_dim r) dims)"
    unfolding named_dim_def
    by (intro maybe_wrap_dims_ok) (simp add: axes_in_range_def axis_in_range_def [abs_def])
  from assms(2) have "\<not> distinct ([] @ map (named_dim r) dims)"
    by simp
  from dim_list_to_bitset_fail [OF _ this] obtain i
    where i: "i < length dims"
      and r: "dim_list_to_bitset (map (named_dim r) dims) []
                = Inl (RuntimeError_dim_repeated (map (named_dim r) dims ! i))"
      and m: "map (named_dim r) dims ! i \<in> set ([] @ take i (map (named_dim r) dims))"
      and d: "distinct ([] @ take i (map (named_dim r) dims))"
    by auto
  from i r m d w ne show ?thesis
    by (intro exI [of _ i]) (simp add: make_dim_mask_def take_map)
qed

section \<open>Reductions\<close>

lemma reduce_with_keepdim:
  assumes "make_dim_mask dims (length (shape t)) = Inr axs"
  shows "reduce_with f t dims True
       = Inr (tabulate (reduced_shape (shape t) axs True)
                (\<lambda>out. f (map (get t) (group_indices (shape t) axs out))))"
  using assms by (simp add: reduce_with_def tabulate_def)

lemma length_reduced_shape [simp]: "length (reduced_shape s axs True) = length s"
  by (simp add: reduced_shape_def)

lemma nth_reduced_shape:
  "k < length s \<Longrightarrow> reduced_shape s axs True ! k = (if k \<in> set axs then 1 else s ! k)"
  by (simp add: reduced_shape_def)

lemma group_indices_cong:
  assumes "\<And>k. k < length s \<Longrightarrow> k \<notin> set axs \<Longrightarrow> a ! k = b ! k"
  shows "group_indices s axs a = group_indices s axs b"
proof -
  have "map (\<lambda>k. if k \<in> set axs then [0..<s ! k] else [a ! k]) [0..<length s]
      = map (\<lambda>k. if k \<in> set axs then [0..<s ! k] else [b ! k]) [0..<length s]"
    by (rule map_cong) (simp_all add: assms)
  then show ?thesis by (simp only: group_indices_def)
qed

lemma distinct_group_indices: "distinct (group_indices s axs out)"
  unfolding group_indices_def by (rule distinct_product_lists) auto

lemma set_group_indices:
  "set (group_indices s axs out)
     = {j. length j = length s
         \<and> (\<forall>k<length s. if k \<in> set axs then j ! k < s ! k else j ! k = out ! k)}"
  by (auto simp: group_indices_def product_lists_set list_all2_conv_all_nth)

lemma distinct_same_group: "distinct (same_group s A idx)"
  by (simp add: same_group_def distinct_indices)

lemma set_same_group:
  "set (same_group s A idx)
     = {j. valid_index s j \<and> (\<forall>k<length s. k \<notin> A \<longrightarrow> j ! k = idx ! k)}"
  by (auto simp: same_group_def set_indices)

lemma set_group_indices_same_group:
  assumes "length idx = length s"
    and "\<And>k. k < length s \<Longrightarrow> k \<notin> set axs \<Longrightarrow> idx ! k < s ! k"
  shows "set (group_indices s axs idx) = set (same_group s (set axs) idx)"
  unfolding set_group_indices set_same_group valid_index_def list_all2_conv_all_nth
  using assms by (auto split: if_splits)

lemma sum_list_group:
  fixes f :: "nat list \<Rightarrow> real"
  assumes "length idx = length s"
    and "\<And>k. k < length s \<Longrightarrow> k \<notin> set axs \<Longrightarrow> idx ! k < s ! k"
  shows "sum_list (map f (group_indices s axs idx)) = sum_list (map f (same_group s (set axs) idx))"
    (is "?l = ?r")
proof -
  have "?l = sum f (set (group_indices s axs idx))"
    by (simp add: sum_list_distinct_conv_sum_set distinct_group_indices)
  also have "\<dots> = sum f (set (same_group s (set axs) idx))"
    using set_group_indices_same_group [OF assms] by simp
  also have "\<dots> = ?r"
    by (simp add: sum_list_distinct_conv_sum_set distinct_same_group)
  finally show ?thesis .
qed

lemma length_group:
  assumes "length idx = length s"
    and "\<And>k. k < length s \<Longrightarrow> k \<notin> set axs \<Longrightarrow> idx ! k < s ! k"
  shows "length (group_indices s axs idx) = length (same_group s (set axs) idx)"
proof -
  have "length (group_indices s axs idx) = card (set (group_indices s axs idx))"
    by (simp add: distinct_card distinct_group_indices)
  also have "\<dots> = card (set (same_group s (set axs) idx))"
    using set_group_indices_same_group [OF assms] by simp
  also have "\<dots> = length (same_group s (set axs) idx)"
    by (simp add: distinct_card distinct_same_group)
  finally show ?thesis .
qed

lemma group_indices_valid:
  assumes "length idx = length s"
    and "\<And>k. k < length s \<Longrightarrow> k \<notin> set axs \<Longrightarrow> idx ! k < s ! k"
    and "j \<in> set (group_indices s axs idx)"
  shows "valid_index s j"
  using assms(3) by (simp add: set_group_indices_same_group [OF assms(1,2)] set_same_group)

lemma group_indices_nonempty:
  assumes "valid_index s idx"
  shows "group_indices s axs idx \<noteq> []"
proof -
  from assms have "idx \<in> set (same_group s (set axs) idx)"
    by (simp add: set_same_group)
  moreover have "set (group_indices s axs idx) = set (same_group s (set axs) idx)"
    using assms by (intro set_group_indices_same_group) (simp_all add: valid_index_length valid_index_nth)
  ultimately have "idx \<in> set (group_indices s axs idx)"
    by simp
  then show ?thesis by auto
qed

text \<open>An index of the reduced tensor names a group as well.\<close>

lemma reduced_index_group:
  assumes "valid_index (reduced_shape s axs True) out"
  shows "length out = length s" and "\<And>k. k < length s \<Longrightarrow> k \<notin> set axs \<Longrightarrow> out ! k < s ! k"
proof -
  from assms show len: "length out = length s"
    by (simp add: valid_index_length)
  fix k assume k: "k < length s" and "k \<notin> set axs"
  with valid_index_nth [OF assms, of k] show "out ! k < s ! k"
    by (simp add: nth_reduced_shape)
qed

section \<open>Broadcasting against a reduced tensor\<close>

lemma broadcast_rev_same:
  assumes "list_all2 (\<lambda>x y. y = x \<or> y = 1) xs ys"
  shows "broadcast_rev xs ys = Inr xs"
  using assms by (induction xs ys rule: list_all2_induct) auto

lemma broadcast_shapes_reduced:
  "broadcast_shapes s (reduced_shape s axs True) = Inr s"
proof -
  have "list_all2 (\<lambda>x y. y = x \<or> y = 1) s (reduced_shape s axs True)"
    by (simp add: list_all2_conv_all_nth nth_reduced_shape)
  then have "list_all2 (\<lambda>x y. y = x \<or> y = 1) (rev s) (rev (reduced_shape s axs True))"
    by (simp only: list_all2_rev)
  then show ?thesis
    by (simp add: broadcast_shapes_def broadcast_rev_same)
qed

lemma bcast_index_self:
  assumes "valid_index s idx"
  shows "bcast_index s idx = idx"
proof (rule nth_equalityI)
  from assms have len: "length idx = length s"
    by (rule valid_index_length)
  then show "length (bcast_index s idx) = length idx"
    by (simp add: bcast_index_def)
  fix k assume "k < length (bcast_index s idx)"
  with len have k: "k < length s" by (simp add: bcast_index_def)
  with assms have "idx ! k < s ! k" by (rule valid_index_nth)
  with k len show "bcast_index s idx ! k = idx ! k"
    by (simp add: bcast_index_def)
qed

lemma bcast_index_reduced:
  assumes "valid_index s idx"
  shows "valid_index (reduced_shape s axs True) (bcast_index (reduced_shape s axs True) idx)"
    and "group_indices s axs (bcast_index (reduced_shape s axs True) idx) = group_indices s axs idx"
proof -
  let ?s' = "reduced_shape s axs True"
  from assms have len: "length idx = length s"
    by (rule valid_index_length)
  have lt: "idx ! k < s ! k" if "k < length s" for k
    using assms that by (rule valid_index_nth)
  have nth: "bcast_index ?s' idx ! k = (if ?s' ! k = 1 then 0 else idx ! k)" if "k < length s" for k
    using that len by (simp add: bcast_index_def)
  show "valid_index ?s' (bcast_index ?s' idx)"
    unfolding valid_index_def list_all2_conv_all_nth
  proof (intro conjI allI impI)
    show "length (bcast_index ?s' idx) = length ?s'"
      using len by (simp add: bcast_index_def)
    fix k assume "k < length (bcast_index ?s' idx)"
    with len have k: "k < length s" by (simp add: bcast_index_def)
    with lt [OF k] show "bcast_index ?s' idx ! k < ?s' ! k"
      by (simp add: nth nth_reduced_shape)
  qed
  show "group_indices s axs (bcast_index ?s' idx) = group_indices s axs idx"
  proof (rule group_indices_cong)
    fix k assume k: "k < length s" and "k \<notin> set axs"
    with lt [OF k] show "bcast_index ?s' idx ! k = idx ! k"
      by (simp add: nth nth_reduced_shape)
  qed
qed

lemma get_map_tensor:
  assumes "wf_tensor t" and "valid_index (shape t) idx"
  shows "get (map_tensor f t) idx = f (get t idx)"
  using assms ravel_valid(1) [of "shape t" idx]
  by (simp add: get_def map_tensor_def wf_tensor_def)

lemma shape_map_tensor [simp]: "shape (map_tensor f t) = shape t"
  by (simp add: map_tensor_def)

lemma wf_map_tensor [simp]: "wf_tensor (map_tensor f t) = wf_tensor t"
  by (simp add: map_tensor_def wf_tensor_def)


section \<open>The normalized tensor, element by element\<close>

lemma get_finite:
  assumes "wf_tensor x" and "finite_tensor x" and "valid_index (shape x) idx"
  shows "get x idx = Some (val_at x idx)"
proof -
  from assms(1,3) have "ravel (shape x) idx < length (elems x)"
    by (simp add: wf_tensor_def ravel_valid(1))
  with assms(2) have "get x idx \<noteq> None"
    by (simp add: finite_tensor_def list_all_length get_def)
  then show ?thesis by (auto simp: val_at_def)
qed

lemma group_values:
  assumes "wf_tensor x" and "finite_tensor x" and "length idx = length (shape x)"
    and "\<And>k. k < length (shape x) \<Longrightarrow> k \<notin> set axs \<Longrightarrow> idx ! k < shape x ! k"
  shows "map (get x) (group_indices (shape x) axs idx)
       = map Some (map (val_at x) (group_indices (shape x) axs idx))"
proof -
  have "get x j = Some (val_at x j)" if "j \<in> set (group_indices (shape x) axs idx)" for j
    using assms(1,2) group_indices_valid [OF assms(3,4) that] by (rule get_finite)
  then show ?thesis by simp
qed

lemma var_over_nonneg: "0 \<le> var_over x A idx"
  unfolding var_over_def by (intro divide_nonneg_nonneg sum_list_nonneg) auto

text \<open>
  What the library computes for a group is the mean and the biased variance of the
  specification; for a group of no element both are not a number.
\<close>

lemma group_stats:
  assumes wf: "wf_tensor x" and fin: "finite_tensor x" and len: "length idx = length (shape x)"
    and ok: "\<And>k. k < length (shape x) \<Longrightarrow> k \<notin> set axs \<Longrightarrow> idx ! k < shape x ! k"
    and ne: "group_indices (shape x) axs idx \<noteq> []"
  shows "mean_of (map (get x) (group_indices (shape x) axs idx))
           = Some (mean_over x (set axs) idx)"
    and "var_of False (map (get x) (group_indices (shape x) axs idx))
           = Some (var_over x (set axs) idx)"
proof -
  let ?g = "group_indices (shape x) axs idx"
  let ?rs = "map (val_at x) ?g"
  let ?n = "real (length (same_group (shape x) (set axs) idx))"
  have ne: "?rs \<noteq> []"
    using ne by simp
  have len': "real (length ?rs) = ?n"
    by (simp add: length_group [OF len ok])
  have sum: "sum_list ?rs = sum_list (map (val_at x) (same_group (shape x) (set axs) idx))"
    using sum_list_group [OF len ok, where f = "val_at x"] by simp
  have mu: "sum_list ?rs / real (length ?rs) = mean_over x (set axs) idx"
    by (simp only: len' sum mean_over_def)
  have "sum_list (map (\<lambda>v. (v - mean_over x (set axs) idx)\<^sup>2) ?rs)
      = sum_list (map (\<lambda>j. (val_at x j - mean_over x (set axs) idx)\<^sup>2) ?g)"
    by (simp add: comp_def)
  also have "\<dots> = sum_list (map (\<lambda>j. (val_at x j - mean_over x (set axs) idx)\<^sup>2)
                       (same_group (shape x) (set axs) idx))"
    by (rule sum_list_group [OF len ok])
  finally have sq: "sum_list (map (\<lambda>v. (v - mean_over x (set axs) idx)\<^sup>2) ?rs) / real (length ?rs)
      = var_over x (set axs) idx"
    by (simp only: len' var_over_def)
  have vals: "map (get x) ?g = map Some ?rs"
    by (rule group_values [OF wf fin len ok])
  show "mean_of (map (get x) ?g) = Some (mean_over x (set axs) idx)"
    using ne by (simp only: vals mean_of_Some mu if_False)
  show "var_of False (map (get x) ?g) = Some (var_over x (set axs) idx)"
    by (simp only: vals var_of_Some [OF ne] mu sq)
qed

lemma empty_group_stats:
  "mean_of [] = None" "var_of False [] = None"
  by (simp_all add: mean_of_def var_of_def fsum_def fdiv_def)

lemma normalize_get:
  assumes axs: "make_dim_mask dims (length (shape x)) = Inr axs"
  shows "\<exists>out. Normalize x dims = Inr out \<and> wf_tensor out \<and> shape out = shape x \<and>
           (\<forall>idx. valid_index (shape x) idx \<longrightarrow>
              get out idx =
                fdiv (fsub (get x idx) (mean_of (map (get x) (group_indices (shape x) axs idx))))
                     (fsqrt (fadd (var_of False (map (get x) (group_indices (shape x) axs idx)))
                                  (Some eps))))"
proof -
  let ?s = "shape x"
  let ?rs = "reduced_shape ?s axs True"
  define m where "m = tabulate ?rs (\<lambda>out. mean_of (map (get x) (group_indices ?s axs out)))"
  define v where "v = tabulate ?rs (\<lambda>out. var_of False (map (get x) (group_indices ?s axs out)))"
  define sq where "sq = torch_sqrt (add_scalar v eps)"
  define c where "c = tabulate ?s (\<lambda>idx. fsub (get x (bcast_index ?s idx)) (get m (bcast_index ?rs idx)))"
  define out where "out = tabulate ?s (\<lambda>idx. fdiv (get c (bcast_index ?s idx)) (get sq (bcast_index ?rs idx)))"
  have mean: "torch_mean x dims True = Inr m"
    by (simp add: torch_mean_def reduce_with_keepdim [OF axs] m_def)
  have var: "torch_var x dims False True = Inr v"
    by (simp add: torch_var_def reduce_with_keepdim [OF axs] v_def)
  have sub: "torch_sub x m = Inr c"
    by (simp add: torch_sub_def binop_def m_def broadcast_shapes_reduced c_def)
  have shape_sq: "shape sq = ?rs"
    by (simp add: sq_def torch_sqrt_def add_scalar_def v_def)
  have shape_c: "shape c = ?s"
    by (simp add: c_def)
  have div: "torch_div c sq = Inr out"
    by (simp add: torch_div_def binop_def shape_sq shape_c broadcast_shapes_reduced out_def)
  have norm: "Normalize x dims = Inr out"
    using div by (simp add: Normalize_def mean var sub sq_def)
  have elt: "get out idx =
      fdiv (fsub (get x idx) (mean_of (map (get x) (group_indices ?s axs idx))))
           (fsqrt (fadd (var_of False (map (get x) (group_indices ?s axs idx))) (Some eps)))"
    if idx: "valid_index ?s idx" for idx
  proof -
    note b = bcast_index_reduced [OF idx, of axs]
    have gm: "get m (bcast_index ?rs idx) = mean_of (map (get x) (group_indices ?s axs idx))"
      by (simp add: m_def get_tabulate b)
    have gv: "get v (bcast_index ?rs idx) = var_of False (map (get x) (group_indices ?s axs idx))"
      by (simp add: v_def get_tabulate b)
    have wfv: "wf_tensor v" and shv: "shape v = ?rs"
      by (simp_all add: v_def)
    have "get sq (bcast_index ?rs idx) = fsqrt (fadd (get v (bcast_index ?rs idx)) (Some eps))"
      using wfv shv b(1)
      by (simp add: sq_def torch_sqrt_def add_scalar_def get_map_tensor)
    moreover have "get c idx = fsub (get x idx) (get m (bcast_index ?rs idx))"
      by (simp add: c_def get_tabulate idx bcast_index_self)
    ultimately show ?thesis
      by (simp add: out_def get_tabulate idx bcast_index_self gm gv)
  qed
  have "wf_tensor out" and "shape out = ?s"
    by (simp_all add: out_def)
  with norm elt show ?thesis by blast
qed

lemma normalize_value:
  assumes wf: "wf_tensor x" and fin: "finite_tensor x"
    and axs: "make_dim_mask dims (length (shape x)) = Inr axs"
    and out: "Normalize x dims = Inr out"
    and idx: "valid_index (shape x) idx"
  shows "get out idx = Some ((val_at x idx - mean_over x (set axs) idx)
                              / sqrt (var_over x (set axs) idx + eps))"
proof -
  let ?g = "group_indices (shape x) axs idx"
  note stats = group_stats [OF wf fin valid_index_length [OF idx] valid_index_nth [OF idx]
      group_indices_nonempty [OF idx], of axs]
  have pos: "0 < var_over x (set axs) idx + eps"
    using var_over_nonneg [of x "set axs" idx] by (simp add: eps_def add_nonneg_pos)
  from normalize_get [OF axs] out idx
  have "get out idx =
      fdiv (fsub (get x idx) (mean_of (map (get x) ?g)))
           (fsqrt (fadd (var_of False (map (get x) ?g)) (Some eps)))"
    by auto
  also have "\<dots> = Some ((val_at x idx - mean_over x (set axs) idx)
                              / sqrt (var_over x (set axs) idx + eps))"
    using pos by (simp add: stats get_finite [OF wf fin idx] fsub_def fadd_def fsqrt_def fdiv_def)
  finally show ?thesis .
qed

section \<open>Normalize: elements, failures, shapes and the variance\<close>

text \<open>
  C1. For every finite tensor and every list of reduction axes that fits its rank,
  \<open>Normalize\<close> returns a tensor of the shape of the input, whose element at each index
  is \<open>(x - mean) / sqrt (var + eps)\<close>, with the mean and the biased variance taken over
  the elements that agree with the index outside the reduced axes. The three formulas of
  the notebook are \<open>Normalize\<close> at their axes. They take no affine parameters (the cells
  compare them with the library under \<open>affine=False\<close>), so the case in which a scale
  and a shift are supplied does not arise in the program.
\<close>

theorem Normalize_elementwise:
  assumes "wf_tensor x" and "finite_tensor x" and "dims_ok (length (shape x)) dims"
  shows "(\<exists>out. Normalize x dims = Inr out \<and> wf_tensor out \<and> shape out = shape x \<and>
           (\<forall>idx. valid_index (shape x) idx \<longrightarrow>
              get out idx =
                Some ((val_at x idx - mean_over x (reduced_axes (length (shape x)) dims) idx)
                      / sqrt (var_over x (reduced_axes (length (shape x)) dims) idx + eps))))
       \<and> our_BN x = Normalize x [0, 2, 3]
       \<and> layerNorm_output x = Normalize x [-1]
       \<and> instance_normalization_math x = Normalize x [1]"
proof -
  from make_dim_mask_ok [OF assms(3)] obtain axs
    where axs: "make_dim_mask dims (length (shape x)) = Inr axs"
      and A: "set axs = reduced_axes (length (shape x)) dims"
    by blast
  from normalize_get [OF axs] obtain out
    where out: "Normalize x dims = Inr out" "wf_tensor out" "shape out = shape x"
    by blast
  have "get out idx =
      Some ((val_at x idx - mean_over x (reduced_axes (length (shape x)) dims) idx)
            / sqrt (var_over x (reduced_axes (length (shape x)) dims) idx + eps))"
    if "valid_index (shape x) idx" for idx
    using normalize_value [OF assms(1,2) axs out(1) that] by (simp only: A)
  with out have "\<exists>out. Normalize x dims = Inr out \<and> wf_tensor out \<and> shape out = shape x \<and>
           (\<forall>idx. valid_index (shape x) idx \<longrightarrow>
              get out idx =
                Some ((val_at x idx - mean_over x (reduced_axes (length (shape x)) dims) idx)
                      / sqrt (var_over x (reduced_axes (length (shape x)) dims) idx + eps)))"
    by blast
  then show ?thesis
    by (simp only: our_BN_def layerNorm_output_def instance_normalization_math_def simp_thms)
qed


lemma example_data_facts:
  "wf_tensor example_data" "finite_tensor example_data" "dims_ok (length (shape example_data)) [1]"
  "valid_index (shape example_data) [0, 0]"
  "make_dim_mask [1] (length (shape example_data)) = Inr [1]"
  by (simp_all add: example_data_def wf_tensor_def finite_tensor_def dims_ok_def wrap_range_def
      valid_index_def make_dim_mask_def maybe_wrap_dim_def)

lemma example_data_stats:
  "mean_over example_data {1} [0, 0] = 2" "var_over example_data {1} [0, 0] = 1"
  by (simp_all add: var_over_def mean_over_def example_data_def same_group_def indices_def
      val_at_def get_def upt_conv_Cons)

lemma example_data_value:
  "result_at (Normalize example_data [1]) [0, 0] = Inr (Some (- 1 / sqrt (1 + eps)))"
proof -
  from normalize_get [OF example_data_facts(5)] obtain out
    where out: "Normalize example_data [1] = Inr out"
    by blast
  have "get out [0, 0] = Some ((val_at example_data [0, 0] - mean_over example_data (set [1]) [0, 0])
                              / sqrt (var_over example_data (set [1]) [0, 0] + eps))"
    by (rule normalize_value [OF example_data_facts(1,2,5) out example_data_facts(4)])
  moreover have "val_at example_data [0, 0] = 1"
    by (simp add: val_at_def get_def example_data_def)
  ultimately have "get out [0, 0] = Some ((1 - 2) / sqrt (1 + eps))"
    by (simp only: list.set example_data_stats)
  then show ?thesis
    by (simp add: out result_at_def)
qed

theorem Normalize_elementwise_witness:
  "wf_tensor example_data \<and> finite_tensor example_data
   \<and> dims_ok (length (shape example_data)) [1]
   \<and> result_shape (Normalize example_data [1]) = Inr [2, 2]
   \<and> result_at (Normalize example_data [1]) [0, 0] = Inr (Some (- 1 / sqrt (1 + eps)))"
proof -
  from Normalize_elementwise [OF example_data_facts(1,2,3)] obtain out
    where out: "Normalize example_data [1] = Inr out" "shape out = shape example_data"
    by blast
  then have "result_shape (Normalize example_data [1]) = Inr [2, 2]"
    by (simp add: result_shape_def example_data_def)
  with example_data_facts(1,2,3) example_data_value show ?thesis
    by simp
qed

lemma Normalize_mask_fail:
  assumes "make_dim_mask dims (length (shape x)) = Inl e"
  shows "torch_mean x dims True = Inl e" and "Normalize x dims = Inl e"
  using assms by (simp_all add: Normalize_def torch_mean_def reduce_with_def)

text \<open>
  C8 (as amended). \<open>Normalize\<close> raises exactly when a declared reduction axis is out of
  range for the tensor or the declared axes name a dimension twice; otherwise it returns
  a tensor of the shape of the input. With an axis out of range the exception is an
  \<open>IndexError\<close> that reports the admissible range and the first such axis, whatever
  the other axes are. With every axis in range and a dimension named twice it is a
  \<open>RuntimeError\<close> that reports the dimension of the first axis that names an already
  named dimension. In both cases the exception is the one of the first statement (the
  mean), so nothing has been computed. The program has no affine parameters, so no
  failure comes from them.
\<close>

theorem Normalize_raises_iff:
  assumes r: "r = length (shape x)"
  shows "((\<exists>e. Normalize x dims = Inl e) \<longleftrightarrow>
            \<not> axes_in_range r dims \<or> \<not> distinct (map (named_dim r) dims))
       \<and> (axes_in_range r dims \<and> distinct (map (named_dim r) dims) \<longrightarrow>
            (\<exists>out. Normalize x dims = Inr out \<and> shape out = shape x))
       \<and> (\<not> axes_in_range r dims \<longrightarrow>
            (\<exists>d. first_out_of_range r dims = Some d \<and>
               Normalize x dims
                 = Inl (IndexError_dim_out_of_range (- wrap_range r) (wrap_range r - 1) d)))
       \<and> (axes_in_range r dims \<and> \<not> distinct (map (named_dim r) dims) \<longrightarrow>
            (\<exists>i<length dims.
               Normalize x dims = Inl (RuntimeError_dim_repeated (named_dim r (dims ! i)))
             \<and> named_dim r (dims ! i) \<in> set (map (named_dim r) (take i dims))
             \<and> distinct (map (named_dim r) (take i dims))))
       \<and> (\<forall>e. Normalize x dims = Inl e \<longrightarrow> torch_mean x dims True = Inl e)"
proof -
  have ok: "\<exists>out. Normalize x dims = Inr out \<and> shape out = shape x"
    if "axes_in_range r dims" and "distinct (map (named_dim r) dims)"
  proof -
    from that have "dims_ok (length (shape x)) dims"
      by (simp add: dims_ok_iff r)
    from make_dim_mask_ok [OF this] obtain axs
      where "make_dim_mask dims (length (shape x)) = Inr axs"
      by blast
    from normalize_get [OF this] show ?thesis
      by blast
  qed
  have range: "\<exists>d. first_out_of_range r dims = Some d
        \<and> Normalize x dims
              = Inl (IndexError_dim_out_of_range (- wrap_range r) (wrap_range r - 1) d)
        \<and> torch_mean x dims True
              = Inl (IndexError_dim_out_of_range (- wrap_range r) (wrap_range r - 1) d)"
    if "\<not> axes_in_range r dims"
  proof -
    from first_out_of_range_Some [OF that] obtain d
      where d: "first_out_of_range r dims = Some d"
      by blast
    from make_dim_mask_out_of_range [OF d]
    have "make_dim_mask dims (length (shape x))
        = Inl (IndexError_dim_out_of_range (- wrap_range r) (wrap_range r - 1) d)"
      by (simp only: r)
    from Normalize_mask_fail [OF this] d show ?thesis
      by blast
  qed
  have twice: "\<exists>i<length dims.
        Normalize x dims = Inl (RuntimeError_dim_repeated (named_dim r (dims ! i)))
      \<and> torch_mean x dims True = Inl (RuntimeError_dim_repeated (named_dim r (dims ! i)))
      \<and> named_dim r (dims ! i) \<in> set (map (named_dim r) (take i dims))
      \<and> distinct (map (named_dim r) (take i dims))"
    if "axes_in_range r dims" and "\<not> distinct (map (named_dim r) dims)"
  proof -
    from make_dim_mask_repeated [OF that] obtain i
      where i: "i < length dims"
        and e: "make_dim_mask dims r = Inl (RuntimeError_dim_repeated (named_dim r (dims ! i)))"
        and m: "named_dim r (dims ! i) \<in> set (map (named_dim r) (take i dims))"
        and d: "distinct (map (named_dim r) (take i dims))"
      by blast
    from e have "make_dim_mask dims (length (shape x))
        = Inl (RuntimeError_dim_repeated (named_dim r (dims ! i)))"
      by (simp only: r)
    from Normalize_mask_fail [OF this] i m d show ?thesis
      by blast
  qed
  have first: "torch_mean x dims True = Inl e" if e: "Normalize x dims = Inl e" for e
  proof (cases "axes_in_range r dims")
    case False
    from range [OF False] e show ?thesis
      by auto
  next
    case True
    show ?thesis
    proof (cases "distinct (map (named_dim r) dims)")
      case False
      from twice [OF True False] e show ?thesis
        by auto
    next
      case d: True
      from ok [OF True d] e show ?thesis
        by auto
    qed
  qed
  have iff: "(\<exists>e. Normalize x dims = Inl e) \<longleftrightarrow>
      \<not> axes_in_range r dims \<or> \<not> distinct (map (named_dim r) dims)"
  proof (cases "axes_in_range r dims")
    case False
    from range [OF False] False show ?thesis
      by auto
  next
    case True
    show ?thesis
    proof (cases "distinct (map (named_dim r) dims)")
      case False
      from twice [OF True False] True False show ?thesis
        by auto
    next
      case d: True
      from ok [OF True d] True d show ?thesis
        by auto
    qed
  qed
  from iff ok range twice first show ?thesis
    by blast
qed

theorem Normalize_raises_iff_witness:
  "2 = length (shape example_data)
   \<and> \<not> axes_in_range 2 [0, 0, 5]
   \<and> Normalize example_data [0, 0, 5] = Inl (IndexError_dim_out_of_range (- 2) 1 5)
   \<and> axes_in_range 2 [1] \<and> distinct (map (named_dim 2) [1])
   \<and> result_shape (Normalize example_data [1]) = Inr [2, 2]"
proof -
  have r: "2 = length (shape example_data)"
    by (simp add: example_data_def)
  note main = Normalize_raises_iff [OF r]
  have bad: "\<not> axes_in_range 2 [0, 0, 5]"
    and first: "first_out_of_range 2 [0, 0, 5] = Some 5"
    by (simp_all add: axes_in_range_def axis_in_range_def first_out_of_range_def wrap_range_def)
  from main [of "[0, 0, 5]"] bad first
  have fails: "Normalize example_data [0, 0, 5] = Inl (IndexError_dim_out_of_range (- 2) 1 5)"
    by (simp add: wrap_range_def)
  have good: "axes_in_range 2 [1]" "distinct (map (named_dim 2) [1])"
    by (simp_all add: axes_in_range_def axis_in_range_def wrap_range_def)
  from main [of "[1]"] good obtain out
    where "Normalize example_data [1] = Inr out" "shape out = shape example_data"
    by blast
  then have "result_shape (Normalize example_data [1]) = Inr [2, 2]"
    by (simp add: result_shape_def example_data_def)
  with r bad fails good show ?thesis
    by simp
qed

text \<open>
  C8 as stated fails on its condition. In the list (0, 0) every axis is in range for the
  example, a tensor of rank 2, so the axes are compatible with its shape; \<open>Normalize\<close>
  raises all the same, and the exception reports a dimension named twice, not a mismatch
  of shapes.
\<close>

theorem Normalize_repeated_axis_counterexample:
  "axes_in_range (length (shape example_data)) [0, 0]
   \<and> Normalize example_data [0, 0] = Inl (RuntimeError_dim_repeated 0)"
  by (simp add: axes_in_range_def axis_in_range_def Normalize_def torch_mean_def reduce_with_def
      make_dim_mask_def maybe_wrap_dim_def wrap_range_def example_data_def)


lemma mask_BN: "make_dim_mask [0, 2, 3] 4 = Inr [0, 2, 3]"
  by (simp add: make_dim_mask_def maybe_wrap_dim_def wrap_range_def)

lemma reduced_shape_BN:
  "reduced_shape [n, c, h, w] [0, 2, 3] True = [1, c, 1, 1]"
  "reduced_shape [n, c, h, w] [0, 2, 3] False = [c]"
  by (simp_all add: reduced_shape_def upt_conv_Cons)

lemma shapes_BN:
  assumes "shape data = [n, c, h, w]"
  shows "\<exists>m v out. channel_mean data = Inr m \<and> shape m = [1, c, 1, 1] \<and> length (elems m) = c
           \<and> channel_var data = Inr v \<and> shape v = [1, c, 1, 1] \<and> length (elems v) = c
           \<and> our_BN data = Inr out \<and> shape out = [n, c, h, w]"
proof -
  have "length (shape data) = 4"
    by (simp add: assms)
  then have axs: "make_dim_mask [0, 2, 3] (length (shape data)) = Inr [0, 2, 3]"
    by (simp only: mask_BN)
  from normalize_get [OF axs] obtain out
    where "our_BN data = Inr out" "shape out = [n, c, h, w]"
    by (auto simp: our_BN_def assms)
  moreover have "\<exists>m. channel_mean data = Inr m \<and> shape m = [1, c, 1, 1] \<and> length (elems m) = c"
    unfolding channel_mean_def torch_mean_def reduce_with_keepdim [OF axs] assms reduced_shape_BN
    by (simp add: tabulate_def)
  moreover have "\<exists>v. channel_var data = Inr v \<and> shape v = [1, c, 1, 1] \<and> length (elems v) = c"
    unfolding channel_var_def torch_var_def reduce_with_keepdim [OF axs] assms reduced_shape_BN
    by (simp add: tabulate_def)
  ultimately show ?thesis by blast
qed

text \<open>
  C7 (as amended). For an input of shape (2,3,4,4) the mean and the variance over the
  axes (0,2,3) are tensors of shape (1,3,1,1), since the program keeps the reduced
  dimensions (\<open>keepdim=True\<close>); they hold 3 values, one per channel. The output has the
  shape (2,3,4,4) of the input.
\<close>

theorem BN_shapes:
  assumes "shape data = [2, 3, 4, 4]"
  shows "\<exists>m v out. channel_mean data = Inr m \<and> shape m = [1, 3, 1, 1] \<and> length (elems m) = 3
           \<and> channel_var data = Inr v \<and> shape v = [1, 3, 1, 1] \<and> length (elems v) = 3
           \<and> our_BN data = Inr out \<and> shape out = [2, 3, 4, 4]"
  using assms by (rule shapes_BN)

theorem BN_shapes_witness:
  "shape example_batch = [2, 3, 4, 4]
   \<and> result_shape (channel_mean example_batch) = Inr [1, 3, 1, 1]
   \<and> result_shape (channel_var example_batch) = Inr [1, 3, 1, 1]
   \<and> result_shape (our_BN example_batch) = Inr [2, 3, 4, 4]"
proof -
  have sh: "shape example_batch = [2, 3, 4, 4]"
    by (simp add: example_batch_def)
  from BN_shapes [OF sh] show ?thesis
    by (auto simp: sh result_shape_def)
qed

text \<open>
  C7 as stated fails: the mean of the example of shape (2,3,4,4) does not have the
  shape (3,). That shape is the one of a reduction without \<open>keepdim\<close>.
\<close>

theorem BN_mean_shape_counterexample:
  "result_shape (channel_mean example_batch) \<noteq> Inr [3]
   \<and> result_shape (channel_var example_batch) \<noteq> Inr [3]"
proof -
  have sh: "shape example_batch = [2, 3, 4, 4]"
    by (simp add: example_batch_def)
  from shapes_BN [OF sh] show ?thesis
    by (auto simp: result_shape_def)
qed


lemma reduced_shape_axes:
  "reduced_shape s axs True = map (\<lambda>k. if k \<in> set axs then 1 else s ! k) [0..<length s]"
  by (simp add: reduced_shape_def)

lemma Normalize_parts:
  assumes axs: "make_dim_mask dims (length (shape x)) = Inr axs"
  shows "\<exists>m v c d. torch_mean x dims True = Inr m \<and> torch_var x dims False True = Inr v
           \<and> torch_sub x m = Inr c \<and> divisor x dims = Inr d \<and> Normalize x dims = torch_div c d
           \<and> shape m = reduced_shape (shape x) axs True
           \<and> shape v = reduced_shape (shape x) axs True
           \<and> shape d = reduced_shape (shape x) axs True
           \<and> (\<forall>out. valid_index (reduced_shape (shape x) axs True) out \<longrightarrow>
                 get m out = mean_of (map (get x) (group_indices (shape x) axs out))
               \<and> get v out = var_of False (map (get x) (group_indices (shape x) axs out))
               \<and> get d out = fsqrt (fadd (get v out) (Some eps)))"
proof -
  let ?rs = "reduced_shape (shape x) axs True"
  define m where "m = tabulate ?rs (\<lambda>out. mean_of (map (get x) (group_indices (shape x) axs out)))"
  define v where "v = tabulate ?rs (\<lambda>out. var_of False (map (get x) (group_indices (shape x) axs out)))"
  define d where "d = torch_sqrt (add_scalar v eps)"
  have mean: "torch_mean x dims True = Inr m"
    by (simp add: torch_mean_def reduce_with_keepdim [OF axs] m_def)
  have var: "torch_var x dims False True = Inr v"
    by (simp add: torch_var_def reduce_with_keepdim [OF axs] v_def)
  have "broadcast_shapes (shape x) (shape m) = Inr (shape x)"
    by (simp add: m_def broadcast_shapes_reduced)
  then obtain c where sub: "torch_sub x m = Inr c"
    by (simp add: torch_sub_def binop_def)
  have dv: "divisor x dims = Inr d"
    by (simp add: divisor_def var d_def)
  have norm: "Normalize x dims = torch_div c d"
    by (simp add: Normalize_def mean var sub d_def)
  have wfv: "wf_tensor v" and shv: "shape v = ?rs" and shm: "shape m = ?rs"
    by (simp_all add: v_def m_def)
  have shd: "shape d = ?rs"
    by (simp add: d_def torch_sqrt_def add_scalar_def shv)
  have "get m out = mean_of (map (get x) (group_indices (shape x) axs out))
      \<and> get v out = var_of False (map (get x) (group_indices (shape x) axs out))
      \<and> get d out = fsqrt (fadd (get v out) (Some eps))"
    if "valid_index ?rs out" for out
    using that wfv shv
    by (simp add: m_def v_def get_tabulate d_def torch_sqrt_def add_scalar_def get_map_tensor)
  with mean var sub dv norm shm shv shd show ?thesis
    by blast
qed

text \<open>
  C3. The variance of every variant is the one of \<open>Normalize\<close> (the batch, layer and
  instance formulas are \<open>Normalize\<close> at their axes, the loop of the group formula applies
  it to each group): the call \<open>torch_var x dims False True\<close> with \<open>unbiased=False\<close>. Each of its
  elements is the sum of the squared deviations from the mean of its group divided by
  the number N of elements of the group. The divisor of \<open>Normalize\<close> is the square root
  of that variance plus 1/100000; it is positive, and no element of the divisor tensor
  is zero. (For a group of no element the variance and the divisor are not a number.)
\<close>

theorem variance_biased_plus_eps:
  assumes "wf_tensor x" and "finite_tensor x" and "dims_ok (length (shape x)) dims"
  shows "(\<exists>m v c d.
           torch_mean x dims True = Inr m \<and> torch_var x dims False True = Inr v
         \<and> torch_sub x m = Inr c \<and> divisor x dims = Inr d \<and> Normalize x dims = torch_div c d
         \<and> shape d = shape v
         \<and> shape v = map (\<lambda>k. if k \<in> reduced_axes (length (shape x)) dims then 1 else shape x ! k)
                         [0..<length (shape x)]
         \<and> (\<forall>out. valid_index (shape v) out \<longrightarrow>
               get d out \<noteq> Some 0
             \<and> (if same_group (shape x) (reduced_axes (length (shape x)) dims) out = []
                 then get v out = None \<and> get d out = None
                 else get v out = Some (var_over x (reduced_axes (length (shape x)) dims) out)
                    \<and> var_over x (reduced_axes (length (shape x)) dims) out =
                        sum_list (map (\<lambda>j. (val_at x j
                                  - mean_over x (reduced_axes (length (shape x)) dims) out)\<^sup>2)
                               (same_group (shape x) (reduced_axes (length (shape x)) dims) out))
                        / real (length (same_group (shape x)
                                        (reduced_axes (length (shape x)) dims) out))
                    \<and> get d out =
                        Some (sqrt (var_over x (reduced_axes (length (shape x)) dims) out
                                    + 1 / 100000))
                    \<and> 0 < sqrt (var_over x (reduced_axes (length (shape x)) dims) out
                                    + 1 / 100000))))
       \<and> channel_var x = torch_var x [0, 2, 3] False True
       \<and> our_BN x = Normalize x [0, 2, 3]
       \<and> layerNorm_output x = Normalize x [-1]
       \<and> instance_normalization_math x = Normalize x [1]
       \<and> (\<forall>g gs acc. group_loop (g # gs) acc
             = (case Normalize g [1, 2] of
                  Inl e \<Rightarrow> Inl e
                | Inr y \<Rightarrow> group_loop gs (acc @ [y])))"
proof -
  let ?A = "reduced_axes (length (shape x)) dims"
  from make_dim_mask_ok [OF assms(3)] obtain axs
    where axs: "make_dim_mask dims (length (shape x)) = Inr axs" and A: "set axs = ?A"
    by blast
  let ?rs = "reduced_shape (shape x) axs True"
  from Normalize_parts [OF axs] obtain m v c d
    where parts: "torch_mean x dims True = Inr m" "torch_var x dims False True = Inr v"
        "torch_sub x m = Inr c" "divisor x dims = Inr d" "Normalize x dims = torch_div c d"
      and sh: "shape v = ?rs" "shape d = ?rs"
      and el: "\<And>out. valid_index ?rs out \<Longrightarrow>
                 get v out = var_of False (map (get x) (group_indices (shape x) axs out))
               \<and> get d out = fsqrt (fadd (get v out) (Some eps))"
    by blast
  have shv: "shape v = map (\<lambda>k. if k \<in> ?A then 1 else shape x ! k) [0..<length (shape x)]"
    by (simp only: sh reduced_shape_axes A)
  have "get d out \<noteq> Some 0
      \<and> (if same_group (shape x) ?A out = []
          then get v out = None \<and> get d out = None
          else get v out = Some (var_over x ?A out)
             \<and> get d out = Some (sqrt (var_over x ?A out + 1 / 100000))
             \<and> 0 < sqrt (var_over x ?A out + 1 / 100000))"
    if out: "valid_index (shape v) out" for out
  proof -
    from out have out': "valid_index ?rs out"
      by (simp only: sh)
    note g = reduced_index_group [OF out']
    have "length (group_indices (shape x) axs out) = length (same_group (shape x) (set axs) out)"
      by (rule length_group) (fact g)+
    then have len: "length (group_indices (shape x) axs out) = length (same_group (shape x) ?A out)"
      by (simp only: A)
    show ?thesis
    proof (cases "same_group (shape x) ?A out = []")
      case True
      with len have "group_indices (shape x) axs out = []"
        by simp
      with el [OF out'] True show ?thesis
        by (simp add: empty_group_stats fadd_def fsqrt_def)
    next
      case False
      with len have ne: "group_indices (shape x) axs out \<noteq> []"
        by auto
      have pos: "0 < var_over x ?A out + 1 / 100000"
        using var_over_nonneg [of x ?A out] by (simp add: add_nonneg_pos)
      have "var_of False (map (get x) (group_indices (shape x) axs out))
          = Some (var_over x (set axs) out)"
        by (rule group_stats(2) [OF assms(1,2) _ _ ne]) (fact g)+
      then have "var_of False (map (get x) (group_indices (shape x) axs out))
          = Some (var_over x ?A out)"
        by (simp only: A)
      with el [OF out'] False pos show ?thesis
        by (simp add: fadd_def fsqrt_def eps_def)
    qed
  qed
  then have "\<forall>out. valid_index (shape v) out \<longrightarrow>
      get d out \<noteq> Some 0
      \<and> (if same_group (shape x) ?A out = []
          then get v out = None \<and> get d out = None
          else get v out = Some (var_over x ?A out)
             \<and> get d out = Some (sqrt (var_over x ?A out + 1 / 100000))
             \<and> 0 < sqrt (var_over x ?A out + 1 / 100000))"
    by blast
  moreover have "shape d = shape v"
    by (simp only: sh)
  ultimately have "\<exists>m v c d.
           torch_mean x dims True = Inr m \<and> torch_var x dims False True = Inr v
         \<and> torch_sub x m = Inr c \<and> divisor x dims = Inr d \<and> Normalize x dims = torch_div c d
         \<and> shape d = shape v
         \<and> shape v = map (\<lambda>k. if k \<in> reduced_axes (length (shape x)) dims then 1 else shape x ! k)
                         [0..<length (shape x)]
         \<and> (\<forall>out. valid_index (shape v) out \<longrightarrow>
               get d out \<noteq> Some 0
             \<and> (if same_group (shape x) (reduced_axes (length (shape x)) dims) out = []
                 then get v out = None \<and> get d out = None
                 else get v out = Some (var_over x (reduced_axes (length (shape x)) dims) out)
                    \<and> var_over x (reduced_axes (length (shape x)) dims) out =
                        sum_list (map (\<lambda>j. (val_at x j
                                  - mean_over x (reduced_axes (length (shape x)) dims) out)\<^sup>2)
                               (same_group (shape x) (reduced_axes (length (shape x)) dims) out))
                        / real (length (same_group (shape x)
                                        (reduced_axes (length (shape x)) dims) out))
                    \<and> get d out =
                        Some (sqrt (var_over x (reduced_axes (length (shape x)) dims) out
                                    + 1 / 100000))
                    \<and> 0 < sqrt (var_over x (reduced_axes (length (shape x)) dims) out
                                    + 1 / 100000)))"
    using parts shv var_over_def [of x ?A] by auto
  then show ?thesis
    by (simp only: channel_var_def our_BN_def layerNorm_output_def
        instance_normalization_math_def group_loop.simps simp_thms)
qed


lemma example_data_axes: "reduced_axes (length (shape example_data)) [1] = {1}"
  by (simp add: reduced_axes_def wrap_range_def example_data_def)

lemma example_data_group: "same_group (shape example_data) {1} [0, 0] \<noteq> []"
  by (simp add: same_group_def example_data_def indices_def upt_conv_Cons)

theorem variance_biased_plus_eps_witness:
  "wf_tensor example_data \<and> finite_tensor example_data
   \<and> dims_ok (length (shape example_data)) [1]
   \<and> result_at (torch_var example_data [1] False True) [0, 0] = Inr (Some 1)
   \<and> result_at (divisor example_data [1]) [0, 0] = Inr (Some (sqrt (1 + 1 / 100000)))"
proof -
  let ?x = example_data
  from variance_biased_plus_eps [OF example_data_facts(1,2,3)] obtain v d
    where v: "torch_var ?x [1] False True = Inr v"
      and d: "divisor ?x [1] = Inr d"
      and shv: "shape v = map (\<lambda>k. if k \<in> {1} then 1 else shape ?x ! k) [0..<length (shape ?x)]"
      and all: "\<forall>out. valid_index (shape v) out \<longrightarrow>
               get d out \<noteq> Some 0
             \<and> (if same_group (shape ?x) {1} out = []
                 then get v out = None \<and> get d out = None
                 else get v out = Some (var_over ?x {1} out)
                    \<and> var_over ?x {1} out =
                        sum_list (map (\<lambda>j. (val_at ?x j - mean_over ?x {1} out)\<^sup>2)
                               (same_group (shape ?x) {1} out))
                        / real (length (same_group (shape ?x) {1} out))
                    \<and> get d out = Some (sqrt (var_over ?x {1} out + 1 / 100000))
                    \<and> 0 < sqrt (var_over ?x {1} out + 1 / 100000))"
    unfolding example_data_axes by blast
  have el: "get v out = Some (var_over ?x {1} out)
          \<and> get d out = Some (sqrt (var_over ?x {1} out + 1 / 100000))"
    if "valid_index (shape v) out" and "same_group (shape ?x) {1} out \<noteq> []" for out
    using all that by presburger
  from shv have "shape v = [2, 1]"
    by (simp add: example_data_def upt_conv_Cons)
  then have "valid_index (shape v) [0, 0]"
    by (simp add: valid_index_def)
  from el [OF this example_data_group]
  have "get v [0, 0] = Some 1" and "get d [0, 0] = Some (sqrt (1 + 1 / 100000))"
    by (simp_all only: example_data_stats)
  with v d example_data_facts(1,2,3) show ?thesis
    by (simp add: result_at_def)
qed


section \<open>Statistics of the normalized tensor\<close>

lemma sum_list_centered:
  fixes rs :: "real list"
  assumes "rs \<noteq> []"
  shows "sum_list (map (\<lambda>v. (v - sum_list rs / real (length rs)) / d) rs) = 0"
proof -
  let ?mu = "sum_list rs / real (length rs)"
  have "sum_list (map (\<lambda>v. (v - ?mu) / d) rs) = sum_list (map (\<lambda>v. (v - ?mu) * inverse d) rs)"
    by (simp add: divide_inverse)
  also have "\<dots> = sum_list (map (\<lambda>v. v - ?mu) rs) * inverse d"
    by (rule sum_list_mult_const)
  also have "sum_list (map (\<lambda>v. v - ?mu) rs) = sum_list rs - real (length rs) * ?mu"
    by (simp add: sum_list_subtractf sum_list_triv)
  also have "\<dots> = 0"
    using assms by simp
  finally show ?thesis by simp
qed

lemma sum_list_scaled_squares:
  fixes rs :: "real list"
  shows "sum_list (map (\<lambda>y. y\<^sup>2) (map (\<lambda>v. (v - mu) / d) rs))
       = sum_list (map (\<lambda>v. (v - mu)\<^sup>2) rs) / d\<^sup>2"
proof -
  have "sum_list (map (\<lambda>y. y\<^sup>2) (map (\<lambda>v. (v - mu) / d) rs))
      = sum_list (map (\<lambda>v. (v - mu)\<^sup>2 * inverse (d\<^sup>2)) rs)"
    by (simp add: comp_def power_divide divide_inverse power_mult_distrib power_inverse)
  also have "\<dots> = sum_list (map (\<lambda>v. (v - mu)\<^sup>2) rs) * inverse (d\<^sup>2)"
    by (rule sum_list_mult_const)
  finally show ?thesis by (simp add: divide_inverse)
qed

lemma standardized_stats:
  fixes rs :: "real list"
  assumes ne: "rs \<noteq> []" and sigma: "sigma = sum_list (map (\<lambda>v. (v - sum_list rs / real (length rs))\<^sup>2) rs) / real (length rs)"
    and pos: "0 < sigma + e"
  shows "mean_of (map Some (map (\<lambda>v. (v - sum_list rs / real (length rs)) / sqrt (sigma + e)) rs)) = Some 0"
    and "var_of False (map Some (map (\<lambda>v. (v - sum_list rs / real (length rs)) / sqrt (sigma + e)) rs))
           = Some (sigma / (sigma + e))"
proof -
  let ?mu = "sum_list rs / real (length rs)"
  let ?d = "sqrt (sigma + e)"
  let ?ys = "map (\<lambda>v. (v - ?mu) / ?d) rs"
  have ys: "?ys \<noteq> []" and len: "length ?ys = length rs"
    using ne by simp_all
  have zero: "sum_list ?ys = 0"
    by (rule sum_list_centered [OF ne])
  show "mean_of (map Some ?ys) = Some 0"
    using ne by (simp only: mean_of_Some zero) simp
  have d2: "?d\<^sup>2 = sigma + e"
    using pos by simp
  have "var_of False (map Some ?ys)
      = Some (sum_list (map (\<lambda>y. (y - sum_list ?ys / real (length ?ys))\<^sup>2) ?ys) / real (length ?ys))"
    by (rule var_of_Some [OF ys])
  also have "sum_list (map (\<lambda>y. (y - sum_list ?ys / real (length ?ys))\<^sup>2) ?ys)
      = sum_list (map (\<lambda>y. y\<^sup>2) ?ys)"
    by (simp only: zero) simp
  also have "\<dots> = sum_list (map (\<lambda>v. (v - ?mu)\<^sup>2) rs) / (sigma + e)"
    by (simp only: sum_list_scaled_squares d2)
  also have "\<dots> / real (length ?ys) = sigma / (sigma + e)"
    by (simp add: sigma)
  finally show "var_of False (map Some ?ys) = Some (sigma / (sigma + e))" .
qed

lemma same_group_cong:
  assumes "\<And>k. k < length s \<Longrightarrow> k \<notin> A \<Longrightarrow> a ! k = b ! k"
  shows "same_group s A a = same_group s A b"
  unfolding same_group_def by (rule filter_cong) (simp_all add: assms)

lemma group_member_agrees:
  assumes "j \<in> set (group_indices s axs out)" and "k < length s" and "k \<notin> set axs"
  shows "j ! k = out ! k"
  using assms by (auto simp: set_group_indices)


lemma group_same_stats:
  assumes "j \<in> set (group_indices (shape x) axs out)"
  shows "mean_over x (set axs) j = mean_over x (set axs) out"
    and "var_over x (set axs) j = var_over x (set axs) out"
proof -
  have "same_group (shape x) (set axs) j = same_group (shape x) (set axs) out"
    by (rule same_group_cong) (rule group_member_agrees [OF assms])
  then show m: "mean_over x (set axs) j = mean_over x (set axs) out"
    by (simp only: mean_over_def)
  from \<open>same_group (shape x) (set axs) j = same_group (shape x) (set axs) out\<close>
  show "var_over x (set axs) j = var_over x (set axs) out"
    by (simp only: var_over_def m)
qed

lemma normalized_group_stats:
  assumes wf: "wf_tensor x" and fin: "finite_tensor x"
    and axs: "make_dim_mask dims (length (shape x)) = Inr axs"
    and out: "Normalize x dims = Inr y"
    and o: "valid_index (reduced_shape (shape x) axs True) out"
    and ne: "group_indices (shape x) axs out \<noteq> []"
  shows "mean_of (map (get y) (group_indices (shape x) axs out)) = Some 0"
    and "var_of False (map (get y) (group_indices (shape x) axs out))
           = Some (var_over x (set axs) out / (var_over x (set axs) out + eps))"
proof -
  let ?g = "group_indices (shape x) axs out"
  let ?rs = "map (val_at x) ?g"
  let ?mu = "sum_list ?rs / real (length ?rs)"
  let ?sigma = "var_over x (set axs) out"
  note g = reduced_index_group [OF o]
  have rs: "?rs \<noteq> []"
    using ne by simp
  have vals: "map (get x) ?g = map Some ?rs"
    by (rule group_values [OF wf fin]) (fact g)+
  have "mean_of (map (get x) ?g) = Some (mean_over x (set axs) out)"
    by (rule group_stats(1) [OF wf fin _ _ ne]) (fact g)+
  then have mu: "mean_over x (set axs) out = ?mu"
    using rs by (simp only: vals mean_of_Some if_False option.inject)
  have "var_of False (map (get x) ?g) = Some ?sigma"
    by (rule group_stats(2) [OF wf fin _ _ ne]) (fact g)+
  then have sigma: "?sigma = sum_list (map (\<lambda>v. (v - ?mu)\<^sup>2) ?rs) / real (length ?rs)"
    by (simp only: vals var_of_Some [OF rs] option.inject)
  have pos: "0 < ?sigma + eps"
    using var_over_nonneg [of x "set axs" out] by (simp add: eps_def add_nonneg_pos)
  have "get y j = Some ((val_at x j - ?mu) / sqrt (?sigma + eps))"
    if j: "j \<in> set ?g" for j
  proof -
    have "valid_index (shape x) j"
      by (rule group_indices_valid [OF _ _ j]) (fact g)+
    from normalize_value [OF wf fin axs out this]
    show ?thesis
      by (simp only: group_same_stats [OF j] mu)
  qed
  then have y_vals: "map (get y) ?g = map Some (map (\<lambda>v. (v - ?mu) / sqrt (?sigma + eps)) ?rs)"
    by (simp add: comp_def)
  show "mean_of (map (get y) ?g) = Some 0"
    by (simp only: y_vals standardized_stats(1) [OF rs sigma pos])
  show "var_of False (map (get y) ?g) = Some (?sigma / (?sigma + eps))"
    by (simp only: y_vals standardized_stats(2) [OF rs sigma pos])
qed

lemma Normalize_finite:
  assumes wf: "wf_tensor x" and fin: "finite_tensor x"
    and axs: "make_dim_mask dims (length (shape x)) = Inr axs"
    and out: "Normalize x dims = Inr y"
  shows "wf_tensor y" and "finite_tensor y" and "shape y = shape x"
proof -
  from normalize_get [OF axs] out show wfy: "wf_tensor y" and sh: "shape y = shape x"
    by auto
  have "get y idx \<noteq> None" if "valid_index (shape y) idx" for idx
    using normalize_value [OF wf fin axs out, of idx] that by (simp add: sh)
  then have "finite_tensor (tabulate (shape y) (get y))"
    by (simp add: finite_tensor_def tabulate_def list_all_iff set_indices)
  with tabulate_get [OF wfy] show "finite_tensor y"
    by simp
qed

lemma normalized_stats_over:
  assumes wf: "wf_tensor x" and fin: "finite_tensor x"
    and axs: "make_dim_mask dims (length (shape x)) = Inr axs"
    and out: "Normalize x dims = Inr y"
    and idx: "valid_index (shape x) idx"
  shows "mean_over y (set axs) idx = 0"
    and "var_over y (set axs) idx
           = var_over x (set axs) idx / (var_over x (set axs) idx + eps)"
proof -
  let ?o = "bcast_index (reduced_shape (shape x) axs True) idx"
  note y = Normalize_finite [OF wf fin axs out]
  note b = bcast_index_reduced [OF idx, of axs]
  have ne: "group_indices (shape x) axs idx \<noteq> []"
    by (rule group_indices_nonempty [OF idx])
  have ne': "group_indices (shape x) axs ?o \<noteq> []"
    unfolding b(2) by (rule ne)
  note st = normalized_group_stats [OF wf fin axs out b(1) ne', unfolded b(2)]
  have len: "length idx = length (shape x)"
    and rng: "\<And>k. k < length (shape x) \<Longrightarrow> k \<notin> set axs \<Longrightarrow> idx ! k < shape x ! k"
    using idx by (auto simp: valid_index_def list_all2_conv_all_nth)
  have "idx \<in> set (group_indices (shape x) axs idx)"
    using idx by (simp add: set_group_indices_same_group [OF len rng] set_same_group)
  then have "idx \<in> set (group_indices (shape x) axs ?o)"
    by (simp only: b(2))
  note same = group_same_stats [OF this]
  have sy: "mean_of (map (get y) (group_indices (shape x) axs idx))
              = Some (mean_over y (set axs) idx)"
    "var_of False (map (get y) (group_indices (shape x) axs idx))
              = Some (var_over y (set axs) idx)"
    by (rule group_stats [of y idx axs, unfolded y(3)]; fact y len rng ne)+
  from st(1) sy(1) show "mean_over y (set axs) idx = 0"
    by simp
  from st(2) sy(2) show "var_over y (set axs) idx
      = var_over x (set axs) idx / (var_over x (set axs) idx + eps)"
    by (simp add: same(2))
qed

text \<open>
  C2 (as amended). For every finite tensor and every list of axes that fits its rank,
  the output of \<open>Normalize\<close> is a finite tensor whose mean over the axes is 0 and whose
  biased variance over the axes is \<open>var / (var + eps)\<close> at every index, where \<open>var\<close> is
  the variance of the input over the axes there (the elements taken together with an
  index include the index, so they are at least one). The variance of the output is
  below 1 by \<open>eps / (var + eps)\<close>: it is within \<open>1e-5\<close> of 1 exactly when the variance
  of the input is at least \<open>1 - eps\<close>.
\<close>

theorem Normalize_mean_zero_variance:
  assumes "wf_tensor x" and "finite_tensor x" and "dims_ok (length (shape x)) dims"
    and A: "A = reduced_axes (length (shape x)) dims"
  shows "\<exists>y. Normalize x dims = Inr y \<and> wf_tensor y \<and> finite_tensor y \<and> shape y = shape x
         \<and> (\<forall>idx. valid_index (shape x) idx \<longrightarrow>
                mean_over y A idx = 0
              \<and> var_over y A idx = var_over x A idx / (var_over x A idx + eps)
              \<and> 1 - var_over y A idx = eps / (var_over x A idx + eps)
              \<and> (\<bar>var_over y A idx - 1\<bar> \<le> 1 / 100000 \<longleftrightarrow> 1 - eps \<le> var_over x A idx))"
proof -
  from make_dim_mask_ok [OF assms(3)] obtain axs
    where axs: "make_dim_mask dims (length (shape x)) = Inr axs" and axsA: "set axs = A"
    unfolding A by blast
  from normalize_get [OF axs] obtain y
    where y: "Normalize x dims = Inr y"
    by blast
  note fy = Normalize_finite [OF assms(1,2) axs y]
  have "mean_over y A idx = 0
      \<and> var_over y A idx = var_over x A idx / (var_over x A idx + eps)
      \<and> 1 - var_over y A idx = eps / (var_over x A idx + eps)
      \<and> (\<bar>var_over y A idx - 1\<bar> \<le> 1 / 100000 \<longleftrightarrow> 1 - eps \<le> var_over x A idx)"
    if idx: "valid_index (shape x) idx" for idx
  proof -
    let ?v = "var_over x A idx"
    note st = normalized_stats_over [OF assms(1,2) axs y idx, unfolded axsA]
    have nn: "0 \<le> ?v"
      by (rule var_over_nonneg)
    then have pos: "0 < ?v + eps"
      by (simp add: eps_def add_nonneg_pos)
    then have d: "1 - ?v / (?v + eps) = eps / (?v + eps)"
      by (simp add: field_simps)
    have "0 < eps / (?v + eps)"
      using pos by (simp add: eps_def)
    with d have "\<bar>?v / (?v + eps) - 1\<bar> = eps / (?v + eps)"
      by linarith
    moreover have "eps / (?v + eps) \<le> 1 / 100000 \<longleftrightarrow> 1 - eps \<le> ?v"
      using pos by (simp add: eps_def field_simps)
    ultimately have "\<bar>?v / (?v + eps) - 1\<bar> \<le> 1 / 100000 \<longleftrightarrow> 1 - eps \<le> ?v"
      by simp
    with st d show ?thesis
      by simp
  qed
  with y fy show ?thesis
    by blast
qed

lemma example_data_constant_row:
  "valid_index (shape example_data) [1, 0]" "var_over example_data {1} [1, 0] = 0"
  by (simp_all add: var_over_def mean_over_def example_data_def same_group_def indices_def
      val_at_def get_def upt_conv_Cons valid_index_def)

theorem Normalize_mean_zero_variance_witness:
  "wf_tensor example_data \<and> finite_tensor example_data
   \<and> dims_ok (length (shape example_data)) [1]
   \<and> {1} = reduced_axes (length (shape example_data)) [1]
   \<and> valid_index (shape example_data) [0, 0]
   \<and> (\<exists>y. Normalize example_data [1] = Inr y
          \<and> mean_over y {1} [0, 0] = 0 \<and> var_over y {1} [0, 0] = 1 / (1 + eps))"
proof -
  let ?x = example_data
  have A: "{1} = reduced_axes (length (shape ?x)) [1]"
    by (simp only: example_data_axes)
  from Normalize_mean_zero_variance [OF example_data_facts(1,2,3) A] obtain y
    where y: "Normalize ?x [1] = Inr y"
      and all: "\<forall>idx. valid_index (shape ?x) idx \<longrightarrow>
                mean_over y {1} idx = 0
              \<and> var_over y {1} idx = var_over ?x {1} idx / (var_over ?x {1} idx + eps)"
    by blast
  from all example_data_facts(4) example_data_stats(2)
  have "mean_over y {1} [0, 0] = 0" and "var_over y {1} [0, 0] = 1 / (1 + eps)"
    by simp_all
  with y A example_data_facts(1,2,3,4) show ?thesis
    by blast
qed

text \<open>
  C2 as stated fails on the variance. The second row of the example is constant, (2, 2):
  its variance is 0, its normalized elements are all 0, and the variance of the output
  over that row is 0, which is not within \<open>1e-5\<close> of 1.
\<close>

theorem Normalize_constant_group_counterexample:
  "\<exists>y. Normalize example_data [1] = Inr y
      \<and> mean_over y {1} [1, 0] = 0 \<and> var_over y {1} [1, 0] = 0
      \<and> \<not> \<bar>var_over y {1} [1, 0] - 1\<bar> \<le> 1 / 100000"
proof -
  from normalize_get [OF example_data_facts(5)] obtain y
    where y: "Normalize example_data [1] = Inr y"
    by blast
  note st = normalized_stats_over [OF example_data_facts(1,2,5) y example_data_constant_row(1)]
  from st(1) have m: "mean_over y {1} [1, 0] = 0"
    by (simp only: list.set)
  from st(2) have "var_over y {1} [1, 0] = 0 / (0 + eps)"
    by (simp only: list.set example_data_constant_row(2))
  then have v: "var_over y {1} [1, 0] = 0"
    by simp
  from y m v show ?thesis
    by simp
qed

section \<open>Weight normalization: rows of a matrix\<close>

lemma indices_1: "indices [n] = map (\<lambda>j. [j]) [0..<n]"
  by (simp add: indices_def comp_def)

lemma indices_col:
  "indices [r, 1] = map (\<lambda>i. [i, 0]) [0..<r]" "indices [r, Suc 0] = map (\<lambda>i. [i, 0]) [0..<r]"
  by (simp_all add: indices_def comp_def)

lemma valid_index_2: "valid_index [r, c] [i, j] \<longleftrightarrow> i < r \<and> j < c"
  by (simp add: valid_index_def)

lemma valid_index_2D:
  assumes "valid_index [r, c] idx"
  obtains i j where "idx = [i, j]" and "i < r" and "j < c"
proof -
  from assms have "length idx = 2"
    by (simp add: valid_index_def list_all2_lengthD)
  then obtain i j where idx: "idx = [i, j]"
    by (cases idx; cases "tl idx") auto
  with assms that show thesis
    by (simp add: valid_index_def)
qed

lemma group_indices_row:
  "group_indices [r, c] [1] out = map (\<lambda>j. [out ! 0, j]) [0..<c]"
  "group_indices [r, c] [Suc 0] out = map (\<lambda>j. [out ! 0, j]) [0..<c]"
  by (simp_all add: group_indices_def upt_conv_Cons comp_def)

lemma mask_row: "make_dim_mask [1] 2 = Inr [1]" "make_dim_mask [-1] 2 = Inr [1]"
  by (simp_all add: make_dim_mask_def maybe_wrap_dim_def wrap_range_def)

lemma reduced_shape_row:
  "reduced_shape [r, c] [1] True = [r, 1]" "reduced_shape [r, c] [1] False = [r]"
  "reduced_shape [r, c] [Suc 0] True = [r, Suc 0]" "reduced_shape [r, c] [Suc 0] False = [r]"
  by (simp_all add: reduced_shape_def upt_conv_Cons)

lemma norm_of_Some:
  "norm_of (map Some rs) = Some (sqrt (sum_list (map (\<lambda>v. v\<^sup>2) rs)))"
proof -
  have "map (\<lambda>v. fmul v v) (map Some rs) = map Some (map (\<lambda>v. v\<^sup>2) rs)"
    by (simp add: fmul_def power2_eq_square)
  moreover have "0 \<le> sum_list (map (\<lambda>v. v\<^sup>2) rs)"
    by (rule sum_list_nonneg) auto
  ultimately show ?thesis
    by (simp only: norm_of_def fsum_Some) (simp add: fsqrt_def)
qed

lemma row_values:
  assumes "wf_tensor w" and "finite_tensor w" and "shape w = [r, c]" and "i < r"
  shows "map (\<lambda>j. get w [i, j]) [0..<c] = map Some (map (\<lambda>j. val_at w [i, j]) [0..<c])"
proof -
  have "get w [i, j] = Some (val_at w [i, j])" if "j < c" for j
    using assms that by (intro get_finite) (simp_all add: valid_index_2)
  then show ?thesis by simp
qed

lemma row_norm_of:
  assumes "wf_tensor w" and "finite_tensor w" and "shape w = [r, c]" and "i < r"
  shows "norm_of (map (\<lambda>j. get w [i, j]) [0..<c]) = Some (row_norm w i)"
  by (simp only: row_values [OF assms] norm_of_Some)
    (simp add: row_norm_def assms(3) comp_def)

lemma select_row_norm:
  assumes "wf_tensor w" and "finite_tensor w" and "shape w = [r, c]" and "i < r"
  shows "\<exists>row. select_row w (int i) = Inr row \<and> norm_all row = Some (row_norm w i)"
proof -
  have "select_row w (int i) = Inr (tabulate [c] (\<lambda>idx. get w (i # idx)))"
    using assms(3,4) by (simp add: select_row_def)
  moreover have "norm_all (tabulate [c] (\<lambda>idx. get w (i # idx)))
      = norm_of (map (\<lambda>j. get w [i, j]) [0..<c])"
    by (simp add: norm_all_def tabulate_def indices_1 comp_def)
  ultimately show ?thesis
    by (simp add: row_norm_of [OF assms])
qed

lemma row_norms_rows:
  assumes "wf_tensor w" and "finite_tensor w" and "shape w = [r, c]" and "\<forall>i \<in> set rows. i < r"
  shows "row_norms w (map int rows) = Inr (map (\<lambda>i. Some (row_norm w i)) rows)"
  using assms(4)
proof (induction rows)
  case Nil
  show ?case by simp
next
  case (Cons i rows)
  from Cons.prems have "i < r" by simp
  from select_row_norm [OF assms(1,2,3) this] obtain row
    where "select_row w (int i) = Inr row" "norm_all row = Some (row_norm w i)"
    by blast
  with Cons show ?case by simp
qed

lemma weight_magnitude_eq:
  assumes "wf_tensor w" and "finite_tensor w" and "shape w = [r, c]"
  shows "weight_magnitude w = Inr (norm_column w)"
proof -
  have "row_norms w (map int [0..<r]) = Inr (map (\<lambda>i. Some (row_norm w i)) [0..<r])"
    by (rule row_norms_rows [OF assms]) simp
  then show ?thesis
    by (simp add: weight_magnitude_def assms(3) torch_reshape_def tensor_of_list_def
        norm_column_def tabulate_def indices_col comp_def)
qed

lemma torch_norm_eq:
  assumes "wf_tensor w" and "finite_tensor w" and "shape w = [r, c]"
  shows "torch_norm w [1] True = Inr (norm_column w)"
proof -
  have "length (shape w) = 2"
    by (simp add: assms(3))
  then have axs: "make_dim_mask [1] (length (shape w)) = Inr [1]"
    by (simp only: mask_row)
  have "map (\<lambda>out. norm_of (map (get w) (group_indices [r, c] [1] out))) (indices [r, 1])
      = map (\<lambda>out. Some (row_norm w (out ! 0))) (indices [r, 1])"
  proof (rule map_cong [OF refl])
    fix out assume "out \<in> set (indices [r, 1])"
    then have "out ! 0 < r"
      by (auto simp: indices_col)
    from row_norm_of [OF assms this]
    show "norm_of (map (get w) (group_indices [r, c] [1] out)) = Some (row_norm w (out ! 0))"
      by (simp add: group_indices_row comp_def)
  qed
  then show ?thesis
    unfolding torch_norm_def reduce_with_keepdim [OF axs] assms(3) reduced_shape_row
    by (simp add: tabulate_def norm_column_def assms(3))
qed

lemma norm_column_facts:
  assumes "shape w = [r, c]"
  shows "shape (norm_column w) = [r, 1]" and "wf_tensor (norm_column w)"
    and "i < r \<Longrightarrow> get (norm_column w) [i, 0] = Some (row_norm w i)"
  by (simp_all add: norm_column_def assms get_tabulate valid_index_def)

lemma broadcast_column:
  "broadcast_shapes [r, c] [r, 1] = Inr [r, c]" "broadcast_shapes [r, 1] [r, c] = Inr [r, c]"
  "broadcast_shapes [r, c] [r, Suc 0] = Inr [r, c]" "broadcast_shapes [r, Suc 0] [r, c] = Inr [r, c]"
  by (simp_all add: broadcast_shapes_def)

lemma bcast_index_column:
  assumes "i < r" and "j < c"
  shows "bcast_index [r, c] [i, j] = [i, j]" and "bcast_index [r, 1] [i, j] = [i, 0]"
    and "bcast_index [r, Suc 0] [i, j] = [i, 0]"
  using assms by (simp_all add: bcast_index_def)


lemma weight_direction_eq:
  assumes "wf_tensor w" and "finite_tensor w" and "shape w = [r, c]"
  shows "weight_direction w = Inr (direction_tensor w)"
    and "direction w = Inr (direction_tensor w)"
proof -
  have "torch_div w (norm_column w) = Inr (direction_tensor w)"
    by (simp add: torch_div_def binop_def norm_column_facts(1) [OF assms(3)] assms(3)
        broadcast_column direction_tensor_def)
  then show "weight_direction w = Inr (direction_tensor w)"
    and "direction w = Inr (direction_tensor w)"
    by (simp_all add: weight_direction_def direction_def weight_magnitude_eq [OF assms]
        torch_norm_eq [OF assms])
qed

lemma direction_tensor_facts:
  assumes "shape w = [r, c]"
  shows "shape (direction_tensor w) = [r, c]" and "wf_tensor (direction_tensor w)"
  by (simp_all add: direction_tensor_def assms)

lemma direction_tensor_get:
  assumes "wf_tensor w" and "finite_tensor w" and "shape w = [r, c]" and "i < r" and "j < c"
  shows "get (direction_tensor w) [i, j]
       = (if row_norm w i = 0 then None else Some (val_at w [i, j] / row_norm w i))"
proof -
  have "get w [i, j] = Some (val_at w [i, j])"
    using assms by (intro get_finite) (simp_all add: valid_index_2)
  then show ?thesis
    using assms(3,4,5)
    by (simp add: direction_tensor_def get_tabulate valid_index_2 bcast_index_column
        norm_column_facts(3) [OF assms(3)] fdiv_def)
qed

lemma recombined_eq:
  assumes "wf_tensor w" and "finite_tensor w" and "shape w = [r, c]" and "nonzero_rows w"
  shows "torch_mul (direction_tensor w) (norm_column w) = Inr w"
    and "torch_mul (norm_column w) (direction_tensor w) = Inr w"
proof -
  have nz: "row_norm w i \<noteq> 0" if "i < r" for i
    using assms(3,4) that by (simp add: nonzero_rows_def list_all_iff)
  let ?a = "tabulate [r, c] (\<lambda>idx. fmul (get (direction_tensor w) (bcast_index [r, c] idx))
                                        (get (norm_column w) (bcast_index [r, 1] idx)))"
  let ?b = "tabulate [r, c] (\<lambda>idx. fmul (get (norm_column w) (bcast_index [r, 1] idx))
                                        (get (direction_tensor w) (bcast_index [r, c] idx)))"
  have a: "torch_mul (direction_tensor w) (norm_column w) = Inr ?a"
    by (simp add: torch_mul_def binop_def norm_column_facts(1) [OF assms(3)]
        direction_tensor_facts(1) [OF assms(3)] broadcast_column)
  have b: "torch_mul (norm_column w) (direction_tensor w) = Inr ?b"
    by (simp add: torch_mul_def binop_def norm_column_facts(1) [OF assms(3)]
        direction_tensor_facts(1) [OF assms(3)] broadcast_column)
  have elt: "get ?a idx = get w idx \<and> get ?b idx = get w idx" if "valid_index [r, c] idx" for idx
  proof -
    from that obtain i j where idx: "idx = [i, j]" and i: "i < r" and j: "j < c"
      by (rule valid_index_2D)
    have "get w [i, j] = Some (val_at w [i, j])"
      using assms i j by (intro get_finite) (simp_all add: valid_index_2)
    with nz [OF i] i j that show ?thesis
      by (simp add: idx get_tabulate bcast_index_column norm_column_facts(3) [OF assms(3)]
          direction_tensor_get [OF assms(1,2,3)] fmul_def)
  qed
  have "?a = w"
  proof (rule tensor_eqI)
    show "wf_tensor ?a" and "wf_tensor w" and "shape ?a = shape w"
      by (simp_all add: assms(1,3))
    fix idx assume "valid_index (shape ?a) idx"
    then have "valid_index [r, c] idx" by simp
    with elt show "get ?a idx = get w idx" by blast
  qed
  moreover have "?b = w"
  proof (rule tensor_eqI)
    show "wf_tensor ?b" and "wf_tensor w" and "shape ?b = shape w"
      by (simp_all add: assms(1,3))
    fix idx assume "valid_index (shape ?b) idx"
    then have "valid_index [r, c] idx" by simp
    with elt show "get ?b idx = get w idx" by blast
  qed
  ultimately show "torch_mul (direction_tensor w) (norm_column w) = Inr w"
    and "torch_mul (norm_column w) (direction_tensor w) = Inr w"
    using a b by simp_all
qed

lemma example_weight_facts:
  "wf_tensor example_weight" "finite_tensor example_weight" "shape example_weight = [2, 2]"
  "row_norm example_weight 0 = 5" "row_norm example_weight 1 = 2" "nonzero_rows example_weight"
proof -
  show "wf_tensor example_weight" "finite_tensor example_weight" "shape example_weight = [2, 2]"
    by (simp_all add: example_weight_def wf_tensor_def finite_tensor_def)
  have s: "sqrt 25 = 5" "sqrt 4 = 2"
    using real_sqrt_abs [of 5] real_sqrt_abs [of 2] by simp_all
  show n: "row_norm example_weight 0 = 5" "row_norm example_weight 1 = 2"
    by (simp_all add: row_norm_def example_weight_def val_at_def get_def upt_conv_Cons s)
  have "[0..<shape example_weight ! 0] = [0, 1]"
    by (simp add: example_weight_def upt_conv_Cons)
  then show "nonzero_rows example_weight"
    unfolding nonzero_rows_def by (simp only: list.pred_inject n) simp
qed

text \<open>
  C4. For every finite matrix with nonzero rows, the magnitude and the direction are
  computed without error and their broadcast product, in either order, is the weight
  matrix itself.
\<close>

theorem decompose_recombine:
  assumes "wf_tensor weight" and "finite_tensor weight" and "shape weight = [r, c]"
    and "nonzero_rows weight"
  shows "\<exists>magnitude d.
           weight_magnitude weight = Inr magnitude \<and> weight_direction weight = Inr d
         \<and> torch_mul d magnitude = Inr weight \<and> torch_mul magnitude d = Inr weight
         \<and> recombined weight = Inr weight"
proof -
  note m = weight_magnitude_eq [OF assms(1,2,3)]
  note d = weight_direction_eq(1) [OF assms(1,2,3)]
  note r = recombined_eq [OF assms]
  have "recombined weight = Inr weight"
    by (simp add: recombined_def m d r)
  with m d r show ?thesis by blast
qed

theorem decompose_recombine_witness:
  "wf_tensor example_weight \<and> finite_tensor example_weight \<and> shape example_weight = [2, 2]
   \<and> nonzero_rows example_weight \<and> recombined example_weight = Inr example_weight"
  using decompose_recombine [OF example_weight_facts(1,2,3,6)] example_weight_facts(1,2,3,6)
  by blast


lemma row_norm_sq:
  "(row_norm w i)\<^sup>2 = sum_list (map (\<lambda>j. (val_at w [i, j])\<^sup>2) [0..<shape w ! 1])"
proof -
  have "0 \<le> sum_list (map (\<lambda>j. (val_at w [i, j])\<^sup>2) [0..<shape w ! 1])"
    by (rule sum_list_nonneg) auto
  then show ?thesis by (simp add: row_norm_def)
qed

lemma row_norm_zero_iff:
  "row_norm w i = 0 \<longleftrightarrow> (\<forall>k<shape w ! 1. val_at w [i, k] = 0)"
proof -
  have "row_norm w i = 0 \<longleftrightarrow> sum_list (map (\<lambda>j. (val_at w [i, j])\<^sup>2) [0..<shape w ! 1]) = 0"
    by (simp add: row_norm_def)
  also have "\<dots> \<longleftrightarrow> (\<forall>v \<in> set (map (\<lambda>j. (val_at w [i, j])\<^sup>2) [0..<shape w ! 1]). v = 0)"
    by (rule sum_list_nonneg_eq_0_iff) auto
  also have "\<dots> \<longleftrightarrow> (\<forall>k<shape w ! 1. val_at w [i, k] = 0)"
    by auto
  finally show ?thesis .
qed

lemma sum_list_div_squares:
  fixes f :: "nat \<Rightarrow> real"
  shows "sum_list (map (\<lambda>j. (f j / n)\<^sup>2) js) = sum_list (map (\<lambda>j. (f j)\<^sup>2) js) / n\<^sup>2"
proof -
  have "sum_list (map (\<lambda>j. (f j / n)\<^sup>2) js) = sum_list (map (\<lambda>j. (f j)\<^sup>2 * inverse (n\<^sup>2)) js)"
    by (simp add: power_divide divide_inverse power_mult_distrib power_inverse)
  also have "\<dots> = sum_list (map (\<lambda>j. (f j)\<^sup>2) js) * inverse (n\<^sup>2)"
    by (rule sum_list_mult_const)
  finally show ?thesis by (simp add: divide_inverse)
qed

lemma direction_row_squares:
  assumes "shape w = [r, c]" and "row_norm w i \<noteq> 0"
  shows "sum_list (map (\<lambda>j. (val_at w [i, j] / row_norm w i)\<^sup>2) [0..<c]) = 1"
proof -
  have "sum_list (map (\<lambda>j. (val_at w [i, j] / row_norm w i)\<^sup>2) [0..<c])
      = sum_list (map (\<lambda>j. (val_at w [i, j])\<^sup>2) [0..<c]) / (row_norm w i)\<^sup>2"
    by (rule sum_list_div_squares)
  also have "sum_list (map (\<lambda>j. (val_at w [i, j])\<^sup>2) [0..<c]) = (row_norm w i)\<^sup>2"
    by (simp add: row_norm_sq assms(1))
  finally show ?thesis using assms(2) by simp
qed

lemma direction_tensor_val:
  assumes "wf_tensor w" and "finite_tensor w" and "shape w = [r, c]" and "i < r" and "j < c"
    and "row_norm w i \<noteq> 0"
  shows "get (direction_tensor w) [i, j] = Some (val_at w [i, j] / row_norm w i)"
    and "val_at (direction_tensor w) [i, j] = val_at w [i, j] / row_norm w i"
  using direction_tensor_get [OF assms(1-5)] assms(6) by (simp_all add: val_at_def)

lemma direction_row_norm:
  assumes "wf_tensor w" and "finite_tensor w" and "shape w = [r, c]" and "i < r"
    and "row_norm w i \<noteq> 0"
  shows "row_norm (direction_tensor w) i = 1"
proof -
  have "map (\<lambda>j. (val_at (direction_tensor w) [i, j])\<^sup>2) [0..<c]
      = map (\<lambda>j. (val_at w [i, j] / row_norm w i)\<^sup>2) [0..<c]"
    by (rule map_cong [OF refl]) (simp add: direction_tensor_val(2) [OF assms(1-4) _ assms(5)])
  moreover have "row_norm (direction_tensor w) i
      = sqrt (sum_list (map (\<lambda>j. (val_at (direction_tensor w) [i, j])\<^sup>2) [0..<c]))"
    by (simp add: row_norm_def direction_tensor_facts(1) [OF assms(3)])
  ultimately have "row_norm (direction_tensor w) i = sqrt 1"
    by (simp only: direction_row_squares [OF assms(3,5)])
  then show ?thesis by simp
qed

lemma direction_sq_sum_eq:
  assumes "wf_tensor w" and "finite_tensor w" and "shape w = [r, c]"
  shows "\<exists>sq. direction_sq_sum w = Inr sq \<and> shape sq = [r]
           \<and> (\<forall>i<r. get sq [i]
                  = fsum (map (\<lambda>j. fmul (get (direction_tensor w) [i, j])
                                         (get (direction_tensor w) [i, j])) [0..<c]))"
proof -
  let ?d = "direction_tensor w"
  have shp: "shape (pow2 ?d) = [r, c]"
    by (simp add: pow2_def direction_tensor_facts(1) [OF assms(3)])
  then have "length (shape (pow2 ?d)) = 2"
    by simp
  then have axs: "make_dim_mask [-1] (length (shape (pow2 ?d))) = Inr [1]"
    by (simp only: mask_row)
  define sq where "sq = tabulate [r]
      (\<lambda>idx. fsum (map (get (pow2 ?d)) (group_indices [r, c] [1] [idx ! 0, 0])))"
  have "torch_sum (pow2 ?d) [-1] False = Inr sq"
    unfolding torch_sum_def reduce_with_def axs
    unfolding shp sq_def
    by (simp add: reduced_shape_row tabulate_def indices_1 indices_col comp_def group_indices_row)
  then have 1: "direction_sq_sum w = Inr sq"
    by (simp add: direction_sq_sum_def weight_direction_eq(1) [OF assms])
  have "get sq [i] = fsum (map (\<lambda>j. fmul (get ?d [i, j]) (get ?d [i, j])) [0..<c])"
    if i: "i < r" for i
  proof -
    have "get (pow2 ?d) [i, j] = fmul (get ?d [i, j]) (get ?d [i, j])" if "j < c" for j
      unfolding pow2_def using i that
      by (intro get_map_tensor) (simp_all add: direction_tensor_facts [OF assms(3)] valid_index_2)
    then have "map (get (pow2 ?d)) (map (\<lambda>j. [i, j]) [0..<c])
        = map (\<lambda>j. fmul (get ?d [i, j]) (get ?d [i, j])) [0..<c]"
      by simp
    moreover have "get sq [i] = fsum (map (get (pow2 ?d)) (map (\<lambda>j. [i, j]) [0..<c]))"
      using i by (simp add: sq_def get_tabulate valid_index_def group_indices_row)
    ultimately show ?thesis
      by (simp only:)
  qed
  with 1 show ?thesis
    by (auto simp: sq_def)
qed

text \<open>
  C5. For every finite matrix with nonzero rows, the magnitude has one entry per row,
  the L2 norm of the row; the row \<open>i\<close> of the direction is the row \<open>i\<close> of the weight
  divided by that entry; the L2 norm of every row of the direction is 1, and so is the
  sum of the squares that the notebook prints.
\<close>

theorem decompose_magnitude_direction:
  assumes "wf_tensor weight" and "finite_tensor weight" and "shape weight = [r, c]"
    and "nonzero_rows weight"
  shows "\<exists>magnitude d sq.
           weight_magnitude weight = Inr magnitude \<and> weight_direction weight = Inr d
         \<and> direction_sq_sum weight = Inr sq
         \<and> shape magnitude = [r, 1] \<and> shape d = [r, c] \<and> shape sq = [r]
         \<and> (\<forall>i<r. get magnitude [i, 0] = Some (row_norm weight i)
                \<and> (\<forall>j<c. get d [i, j] = Some (val_at weight [i, j] / row_norm weight i))
                \<and> row_norm d i = 1
                \<and> get sq [i] = Some 1)"
proof -
  let ?d = "direction_tensor weight"
  note a = assms(1,2,3)
  have nz: "row_norm weight i \<noteq> 0" if "i < r" for i
    using assms(3,4) that by (simp add: nonzero_rows_def list_all_iff)
  from direction_sq_sum_eq [OF a] obtain sq
    where sq: "direction_sq_sum weight = Inr sq" "shape sq = [r]"
      and el: "\<And>i. i < r \<Longrightarrow> get sq [i]
                  = fsum (map (\<lambda>j. fmul (get ?d [i, j]) (get ?d [i, j])) [0..<c])"
    by blast
  have "get (norm_column weight) [i, 0] = Some (row_norm weight i)
      \<and> (\<forall>j<c. get ?d [i, j] = Some (val_at weight [i, j] / row_norm weight i))
      \<and> row_norm ?d i = 1 \<and> get sq [i] = Some 1"
    if i: "i < r" for i
  proof -
    have d: "get ?d [i, j] = Some (val_at weight [i, j] / row_norm weight i)" if "j < c" for j
      by (rule direction_tensor_val(1) [OF a i that nz [OF i]])
    then have "map (\<lambda>j. fmul (get ?d [i, j]) (get ?d [i, j])) [0..<c]
        = map Some (map (\<lambda>j. (val_at weight [i, j] / row_norm weight i)\<^sup>2) [0..<c])"
      by (simp add: fmul_def power2_eq_square)
    then have "get sq [i] = Some 1"
      by (simp only: el [OF i] fsum_Some direction_row_squares [OF assms(3) nz [OF i]])
    with d i show ?thesis
      by (simp add: norm_column_facts(3) [OF assms(3)] direction_row_norm [OF a i nz [OF i]])
  qed
  with weight_magnitude_eq [OF a] weight_direction_eq(1) [OF a] sq
    norm_column_facts(1) [OF assms(3)] direction_tensor_facts(1) [OF assms(3)]
  show ?thesis by blast
qed

theorem decompose_magnitude_direction_witness:
  "wf_tensor example_weight \<and> finite_tensor example_weight \<and> shape example_weight = [2, 2]
   \<and> nonzero_rows example_weight
   \<and> result_at (weight_magnitude example_weight) [0, 0] = Inr (Some 5)
   \<and> result_at (weight_direction example_weight) [0, 1] = Inr (Some (4 / 5))
   \<and> result_at (direction_sq_sum example_weight) [0] = Inr (Some 1)"
proof -
  note f = example_weight_facts
  from decompose_magnitude_direction [OF f(1,2,3,6)] obtain magnitude d sq
    where r: "weight_magnitude example_weight = Inr magnitude"
        "weight_direction example_weight = Inr d" "direction_sq_sum example_weight = Inr sq"
      and el: "\<forall>i<2. get magnitude [i, 0] = Some (row_norm example_weight i)
                \<and> (\<forall>j<2. get d [i, j] = Some (val_at example_weight [i, j] / row_norm example_weight i))
                \<and> row_norm d i = 1 \<and> get sq [i] = Some 1"
    by blast
  have "(0::nat) < 2" and "(1::nat) < 2"
    by simp_all
  with el have "get magnitude [0, 0] = Some (row_norm example_weight 0)"
    and "get d [0, 1] = Some (val_at example_weight [0, 1] / row_norm example_weight 0)"
    and "get sq [0] = Some 1"
    by blast+
  moreover have "val_at example_weight [0, 1] = 4"
    by (simp add: val_at_def get_def example_weight_def)
  ultimately show ?thesis
    using r f(1,2,3,6) by (simp add: result_at_def f(4))
qed


section \<open>The linear transform with the recombined weight\<close>

lemma tabulate_cong:
  assumes "\<And>idx. valid_index s idx \<Longrightarrow> f idx = g idx"
  shows "tabulate s f = tabulate s g"
  using assms by (simp add: tabulate_def set_indices)

lemma transpose_matrix:
  assumes "shape w = [r, c]"
  shows "torch_transpose w (-1) (-2) = Inr (tensor_T w)"
proof -
  have "maybe_wrap_dim (-1) (length (shape w)) = Inr 1"
    and "maybe_wrap_dim (-2) (length (shape w)) = Inr 0"
    by (simp_all add: assms maybe_wrap_dim_def wrap_range_def)
  moreover have "tabulate [c, r] (\<lambda>idx. get w (idx[1 := idx ! 0, 0 := idx ! 1]))
      = tabulate [c, r] (\<lambda>idx. get w (rev idx))"
  proof (rule tabulate_cong)
    fix idx assume "valid_index [c, r] idx"
    then obtain i j where "idx = [i, j]"
      by (rule valid_index_2D)
    then show "get w (idx[1 := idx ! 0, 0 := idx ! 1]) = get w (rev idx)"
      by simp
  qed
  ultimately show ?thesis
    by (simp add: torch_transpose_def tensor_T_def assms)
qed

text \<open>
  C6. For every finite weight matrix with nonzero rows and every data tensor, the
  product of the data with the transposed recombined weight is the result of the linear
  module with the original weight; so is the product of the first cell, whose magnitude
  \<open>weight_g\<close> is the column of the row norms.
\<close>

theorem linear_with_recombined_weight:
  assumes "wf_tensor weight" and "finite_tensor weight" and "shape weight = [r, c]"
    and "nonzero_rows weight"
  shows "recombined_linear weight data = linear_module weight data
       \<and> (\<forall>weight_g. torch_norm weight [1] True = Inr weight_g \<longrightarrow>
             wn_linear_output data weight_g weight = linear_module weight data)"
proof -
  note a = assms(1,2,3)
  note m = weight_magnitude_eq [OF a]
  note d = weight_direction_eq [OF a]
  note r = recombined_eq [OF assms]
  have "recombined weight = Inr weight"
    by (simp add: recombined_def m d r)
  then have 1: "recombined_linear weight data = linear_module weight data"
    by (simp add: recombined_linear_def linear_module_def)
  have "wn_linear_output data weight_g weight = linear_module weight data"
    if "torch_norm weight [1] True = Inr weight_g" for weight_g
  proof -
    from that have "weight_g = norm_column weight"
      by (simp add: torch_norm_eq [OF a])
    then have "wn_weight weight_g weight = Inr weight"
      by (simp add: wn_weight_def d r)
    then show ?thesis
      by (simp add: wn_linear_output_def transpose_matrix [OF assms(3)] linear_module_def)
  qed
  with 1 show ?thesis by blast
qed


lemma example_linear_value:
  "result_at (linear_module example_weight example_data) [0, 0] = Inr (Some 15)"
proof -
  let ?wt = "tensor_T example_weight"
  have sh: "shape ?wt = [2, 2]" "shape example_data = [2, 2]"
    by (simp_all add: tensor_T_def example_weight_def example_data_def)
  have wt: "get ?wt [0, 0] = Some 3" "get ?wt [1, 0] = Some 4"
    by (simp_all add: tensor_T_def example_weight_facts(3) get_tabulate valid_index_def)
      (simp_all add: get_def example_weight_def)
  have dat: "get example_data [0, 0] = Some 1" "get example_data [0, 1] = Some 3"
    by (simp_all add: get_def example_data_def)
  have "matmul example_data ?wt
      = Inr (tabulate [2, 2]
          (\<lambda>idx. fsum (map (\<lambda>i. fmul (get example_data (butlast idx @ [i])) (get ?wt [i, last idx]))
                           [0..<2])))"
    by (simp add: matmul_def sh)
  moreover have "get (tabulate [2, 2]
          (\<lambda>idx. fsum (map (\<lambda>i. fmul (get example_data (butlast idx @ [i])) (get ?wt [i, last idx]))
                           [0..<2]))) [0, 0]
      = fsum [fmul (get example_data [0, 0]) (get ?wt [0, 0]),
              fmul (get example_data [0, 1]) (get ?wt [1, 0])]"
    by (simp add: get_tabulate valid_index_def upt_conv_Cons)
  ultimately have "result_at (linear_module example_weight example_data) [0, 0]
      = Inr (fsum [fmul (get example_data [0, 0]) (get ?wt [0, 0]),
                   fmul (get example_data [0, 1]) (get ?wt [1, 0])])"
    by (simp only: linear_module_def result_at_def sum.case)
  also have "fsum [fmul (get example_data [0, 0]) (get ?wt [0, 0]),
                   fmul (get example_data [0, 1]) (get ?wt [1, 0])] = Some 15"
    by (simp only: wt dat) (simp add: fsum_def fmul_def fadd_def)
  finally show ?thesis .
qed

theorem linear_with_recombined_weight_witness:
  "wf_tensor example_weight \<and> finite_tensor example_weight \<and> shape example_weight = [2, 2]
   \<and> nonzero_rows example_weight
   \<and> recombined_linear example_weight example_data = linear_module example_weight example_data
   \<and> result_at (recombined_linear example_weight example_data) [0, 0] = Inr (Some 15)
   \<and> wn_linear_output example_data (norm_column example_weight) example_weight
       = linear_module example_weight example_data"
proof -
  note f = example_weight_facts
  note main = linear_with_recombined_weight [OF f(1,2,3,6), of example_data]
  from main have 1: "recombined_linear example_weight example_data
      = linear_module example_weight example_data"
    by blast
  from main torch_norm_eq [OF f(1,2,3)]
  have 2: "wn_linear_output example_data (norm_column example_weight) example_weight
      = linear_module example_weight example_data"
    by blast
  from 1 2 f(1,2,3,6) example_linear_value show ?thesis
    by simp
qed


section \<open>Group normalization: the chunks of the channel axis\<close>

lemma chunks_Suc:
  fixes C sz :: nat
  assumes "0 < C" and "0 < sz"
  shows "(C + sz - 1) div sz = Suc ((C - 1) div sz)"
proof -
  from assms have "C + sz - 1 = (C - 1) + sz"
    by linarith
  then have "(C + sz - 1) div sz = ((C - 1) + sz) div sz"
    by (rule arg_cong)
  also have "\<dots> = Suc ((C - 1) div sz)"
    using assms(2) by (simp only: div_add_self2)
  finally show ?thesis .
qed

lemma chunk_of_channel:
  fixes C sz c :: nat
  assumes "0 < sz" and "c < C"
  shows "c div sz < (C + sz - 1) div sz"
proof -
  from assms(2) have "c \<le> C - 1"
    by linarith
  then have "c div sz \<le> (C - 1) div sz"
    by (rule div_le_mono)
  moreover have "(C + sz - 1) div sz = Suc ((C - 1) div sz)"
    using assms by (intro chunks_Suc) linarith+
  ultimately show ?thesis
    by linarith
qed

lemma chunks_cover:
  fixes C sz :: nat
  assumes "0 < sz"
  shows "C \<le> sz * ((C + sz - 1) div sz)" and "sz * ((C + sz - 1) div sz) < C + sz"
proof -
  have "C + sz - 1 < sz + sz * ((C + sz - 1) div sz)"
    using assms by (rule dividend_less_times_div)
  with assms show "C \<le> sz * ((C + sz - 1) div sz)"
    by linarith
  have "sz * ((C + sz - 1) div sz) \<le> C + sz - 1"
    by (rule times_div_less_eq_dividend)
  with assms show "sz * ((C + sz - 1) div sz) < C + sz"
    by linarith
qed

lemma chunks_ceiling:
  fixes C sz :: nat
  assumes "0 < sz"
  shows "\<lceil>real C / real sz\<rceil> = int ((C + sz - 1) div sz)"
proof (rule ceiling_unique)
  let ?q = "(C + sz - 1) div sz"
  from chunks_cover [OF assms, of C]
  have "real C \<le> real (sz * ?q)" and "real (sz * ?q) < real (C + sz)"
    by (simp_all only: of_nat_le_iff of_nat_less_iff)
  then have le: "real C \<le> real ?q * real sz" and lt: "real ?q * real sz < real C + real sz"
    by (simp_all add: mult.commute)
  from assms le show "real C / real sz \<le> of_int (int ?q)"
    by (simp add: pos_divide_le_eq)
  from lt have "(real ?q - 1) * real sz < real C"
    by (simp add: algebra_simps)
  with assms show "of_int (int ?q) - 1 < real C / real sz"
    by (simp add: pos_less_divide_eq)
qed

text \<open>The width of the chunk \<open>k\<close>, as the library computes it and in closed form.\<close>

lemma chunk_width:
  fixes C sz k :: nat
  assumes "0 < sz" and "k < max ((C + sz - 1) div sz) 1"
  shows "(if k < max ((C + sz - 1) div sz) 1 - 1 then sz
          else sz - (sz * max ((C + sz - 1) div sz) 1 - C)) = min sz (C - k * sz)"
proof -
  let ?q = "(C + sz - 1) div sz"
  let ?num = "max ?q 1"
  note cover = chunks_cover [OF assms(1), of C]
  show ?thesis
  proof (cases "k < ?num - 1")
    case True
    then have "Suc k \<le> ?q - 1" and q: "?num = ?q"
      by simp_all
    then have "sz * Suc k \<le> sz * (?q - 1)"
      by (intro mult_le_mono2)
    also have "\<dots> = sz * ?q - sz"
      by (simp add: diff_mult_distrib2)
    also have "\<dots> < C"
    proof -
      from True have "1 \<le> ?q" by simp
      then have "sz * 1 \<le> sz * ?q" by (rule mult_le_mono2)
      then have "sz \<le> sz * ?q" by simp
      with cover(2) show ?thesis by linarith
    qed
    finally have "sz < C - k * sz"
      by (simp add: mult.commute)
    with True show ?thesis by simp
  next
    case False
    with assms(2) have k: "k = ?num - 1"
      by linarith
    show ?thesis
    proof (cases "C = 0")
      case True
      then have "?q = 0"
        using assms(1) by simp
      with True k show ?thesis by simp
    next
      case False
      then have "0 < C" by simp
      then have "1 \<le> ?q"
        using chunks_Suc [OF _ assms(1), of C] by simp
      then have num: "?num = ?q"
        by simp
      have kq: "k = ?q - 1"
        using k num by simp
      have "(?q - 1) * sz = ?q * sz - 1 * sz"
        by (rule diff_mult_distrib)
      then have ksz: "k * sz = sz * ?q - sz"
        by (simp only: kq mult.commute [of sz] mult_1)
      from cover \<open>1 \<le> ?q\<close> have "sz \<le> sz * ?q"
        by simp
      with cover ksz have "sz - (sz * ?q - C) = C - k * sz" and "C - k * sz \<le> sz"
        by linarith+
      with k num show ?thesis
        by simp
    qed
  qed
qed

lemma sum_chunk_widths:
  fixes C sz :: nat
  shows "sum_list (map (\<lambda>k. min sz (C - k * sz)) [0..<m]) = min (m * sz) C"
proof (induction m)
  case 0
  show ?case by simp
next
  case (Suc m)
  show ?case
  proof (cases "m * sz \<le> C")
    case True
    with Suc show ?thesis by (auto simp: min_def)
  next
    case False
    with Suc show ?thesis by (auto simp: min_def)
  qed
qed

lemma locate_chunk:
  fixes C sz c a num :: nat
  assumes "0 < sz" and "c < C" and "c div sz < num" and "a \<le> c div sz"
  shows "locate (map (\<lambda>k. min sz (C - k * sz)) [a..<num]) (c - a * sz) = (c div sz - a, c mod sz)"
  using assms(4)
proof (induction "c div sz - a" arbitrary: a)
  case 0
  then have a: "a = c div sz" by simp
  with assms(3) have "[a..<num] = a # [Suc a..<num]"
    by (simp add: upt_conv_Cons)
  moreover have "c - a * sz = c mod sz"
    by (simp add: a minus_div_mult_eq_mod)
  moreover have "c mod sz < min sz (C - a * sz)"
  proof -
    have "c mod sz < sz" using assms(1) by simp
    moreover have "a * sz \<le> c"
      by (simp add: a)
    then have "c mod sz < C - a * sz"
      using assms(2) \<open>c - a * sz = c mod sz\<close> by linarith
    ultimately show ?thesis by simp
  qed
  ultimately show ?case
    by (simp add: a)
next
  case (Suc d)
  then have lt: "a < c div sz" and d: "d = c div sz - Suc a" and le: "Suc a \<le> c div sz"
    by simp_all
  from lt assms(3) have up: "[a..<num] = a # [Suc a..<num]"
    by (simp add: upt_conv_Cons)
  have "Suc a * sz \<le> c div sz * sz"
    using le by (rule mult_le_mono1)
  also have "\<dots> \<le> c"
    by simp
  finally have c: "Suc a * sz \<le> c" .
  with assms(2) have w: "min sz (C - a * sz) = sz"
    by simp
  from c have ge: "\<not> c - a * sz < sz" and sub: "c - a * sz - sz = c - Suc a * sz"
    by simp_all
  from Suc.hyps(1) [OF d le]
  have ih: "locate (map (\<lambda>k. min sz (C - k * sz)) [Suc a..<num]) (c - Suc a * sz)
      = (c div sz - Suc a, c mod sz)" .
  have "locate (map (\<lambda>k. min sz (C - k * sz)) [a..<num]) (c - a * sz)
      = (case locate (map (\<lambda>k. min sz (C - k * sz)) [Suc a..<num]) (c - a * sz - sz) of
           (k, q) \<Rightarrow> (Suc k, q))"
    using ge by (simp only: up list.map locate.simps w if_False)
  also have "\<dots> = (Suc (c div sz - Suc a), c mod sz)"
    by (simp only: sub ih prod.case)
  also have "Suc (c div sz - Suc a) = c div sz - a"
    using lt by simp
  finally show ?case .
qed


section \<open>Group normalization: splitting, the loop, concatenating\<close>

lemma valid_index_3: "valid_index [a, b, c] [i, j, k] \<longleftrightarrow> i < a \<and> j < b \<and> k < c"
  by (simp add: valid_index_def)

lemma valid_index_3D:
  assumes "valid_index [a, b, c] idx"
  obtains i j k where "idx = [i, j, k]" and "i < a" and "j < b" and "k < c"
proof -
  from assms have "length idx = 3"
    by (simp add: valid_index_def list_all2_lengthD)
  then obtain i j k where idx: "idx = [i, j, k]"
    by (cases idx; cases "tl idx"; cases "tl (tl idx)") auto
  with assms that show thesis
    by (simp add: valid_index_def)
qed

lemma finite_tabulate:
  assumes "\<And>idx. valid_index s idx \<Longrightarrow> f idx \<noteq> None"
  shows "finite_tensor (tabulate s f)"
  using assms by (simp add: finite_tensor_def tabulate_def list_all_iff set_indices)

lemma narrow_facts:
  assumes "shape x = [N, L, C]"
  shows "shape (narrow x 2 st w) = [N, L, w]" and "wf_tensor (narrow x 2 st w)"
    and "n < N \<Longrightarrow> l < L \<Longrightarrow> q < w \<Longrightarrow>
           get (narrow x 2 st w) [n, l, q] = get x [n, l, st + q]"
  by (simp_all add: narrow_def assms get_tabulate valid_index_3)

lemma narrow_finite:
  assumes "wf_tensor x" and "finite_tensor x" and "shape x = [N, L, C]" and "st + w \<le> C"
  shows "finite_tensor (narrow x 2 st w)"
    and "n < N \<Longrightarrow> l < L \<Longrightarrow> q < w \<Longrightarrow>
           val_at (narrow x 2 st w) [n, l, q] = val_at x [n, l, st + q]"
proof -
  have "get x (idx[2 := st + idx ! 2]) \<noteq> None" if "valid_index [N, L, w] idx" for idx
  proof -
    from that obtain n l q where "idx = [n, l, q]" "n < N" "l < L" "q < w"
      by (rule valid_index_3D)
    with assms(4) have "valid_index (shape x) (idx[2 := st + idx ! 2])"
      by (simp add: assms(3) valid_index_3)
    from get_finite [OF assms(1,2) this] show ?thesis by simp
  qed
  then show "finite_tensor (narrow x 2 st w)"
    unfolding narrow_def assms(3) by (intro finite_tabulate) simp
  show "val_at (narrow x 2 st w) [n, l, q] = val_at x [n, l, st + q]"
    if "n < N" "l < L" "q < w"
    using that by (simp add: val_at_def narrow_facts(3) [OF assms(3)])
qed

lemma grouped_input_eq:
  assumes "shape x = [N, L, C]" and "1 \<le> G"
  shows "grouped_input x G
       = Inr (map (\<lambda>k. narrow x 2 (k * nat G) (min (nat G) (C - k * nat G)))
                  [0..<max ((C + nat G - 1) div nat G) 1])"
proof -
  let ?sz = "nat G"
  let ?num = "max ((C + ?sz - 1) div ?sz) 1"
  from assms(2) have sz: "0 < ?sz" and G: "\<not> G < 0" "G \<noteq> 0"
    by simp_all
  have wrap: "maybe_wrap_dim (- 1) (length (shape x)) = Inr 2"
    by (simp add: assms(1) maybe_wrap_dim_def wrap_range_def)
  have "map (\<lambda>i. narrow x 2 (i * ?sz) (if i < ?num - 1 then ?sz else ?sz - (?sz * ?num - C)))
            [0..<?num]
      = map (\<lambda>k. narrow x 2 (k * ?sz) (min ?sz (C - k * ?sz))) [0..<?num]"
  proof (rule map_cong [OF refl])
    fix k assume "k \<in> set [0..<?num]"
    then have "k < ?num" by simp
    from chunk_width [OF sz this]
    show "narrow x 2 (k * ?sz) (if k < ?num - 1 then ?sz else ?sz - (?sz * ?num - C))
        = narrow x 2 (k * ?sz) (min ?sz (C - k * ?sz))"
      by (simp only:)
  qed
  moreover have "grouped_input x G
      = Inr (map (\<lambda>i. narrow x 2 (i * ?sz) (if i < ?num - 1 then ?sz else ?sz - (?sz * ?num - C)))
            [0..<?num])"
  proof -
    have c: "shape x ! 2 = C"
      by (simp add: assms(1))
    have e: "(shape x = []) = False" "(G < 0) = False" "(G = 0 \<and> C \<noteq> 0) = False"
      "(nat G = 0) = False"
      using G by (simp_all add: assms(1))
    show ?thesis
      by (simp only: grouped_input_def torch_split_def wrap Let_def sum.case e if_False c)
  qed
  ultimately show ?thesis by (simp only:)
qed

lemma mask_group: "make_dim_mask [1, 2] 3 = Inr [1, 2]"
  by (simp add: make_dim_mask_def maybe_wrap_dim_def wrap_range_def)

lemma Normalize_chunk:
  assumes "length (shape t) = 3"
  shows "\<exists>y. Normalize t [1, 2] = Inr y \<and> wf_tensor y \<and> shape y = shape t"
proof -
  from assms have "make_dim_mask [1, 2] (length (shape t)) = Inr [1, 2]"
    by (simp only: mask_group)
  from normalize_get [OF this] show ?thesis by blast
qed

lemma group_loop_all:
  assumes "\<And>t. t \<in> set ts \<Longrightarrow> length (shape t) = 3"
  shows "\<exists>ys. group_loop ts acc = Inr (acc @ ys) \<and> length ys = length ts
           \<and> (\<forall>i<length ts. Normalize (ts ! i) [1, 2] = Inr (ys ! i))"
  using assms
proof (induction ts arbitrary: acc)
  case Nil
  show ?case by simp
next
  case (Cons t ts)
  from Normalize_chunk [of t] Cons.prems obtain y
    where y: "Normalize t [1, 2] = Inr y"
    by auto
  from Cons.IH [of "acc @ [y]"] Cons.prems obtain ys
    where ys: "group_loop ts (acc @ [y]) = Inr ((acc @ [y]) @ ys)" "length ys = length ts"
      "\<forall>i<length ts. Normalize (ts ! i) [1, 2] = Inr (ys ! i)"
    by auto
  have "\<forall>i<length (t # ts). Normalize ((t # ts) ! i) [1, 2] = Inr ((y # ys) ! i)"
    using y ys(3) by (auto simp: nth_Cons split: nat.splits)
  with y ys(1,2) show ?case
    by (intro exI [of _ "y # ys"]) simp
qed


lemma set_same_group_3:
  "set (same_group [N, L, w] {1, 2} [n, l, q]) = {j. valid_index [N, L, w] j \<and> j ! 0 = n}"
  unfolding set_same_group by (auto simp: less_Suc_eq numeral_3_eq_3)

lemma set_chunk_group:
  "set (chunk_group s width idx)
     = {j. valid_index s j \<and> j ! 0 = idx ! 0 \<and> j ! 2 div width = idx ! 2 div width}"
  by (auto simp: chunk_group_def set_indices)

lemma distinct_chunk_group: "distinct (chunk_group s width idx)"
  by (simp add: chunk_group_def distinct_indices)

lemma chunk_sum:
  fixes g :: "nat list \<Rightarrow> real"
  assumes sz: "0 < sz" and w: "w = min sz (C - k * sz)" and q: "q < w"
  shows "sum_list (map (\<lambda>j. g (j[2 := k * sz + j ! 2])) (same_group [N, L, w] {1, 2} [n, l, q]))
       = sum_list (map g (chunk_group [N, L, C] sz [n, l, k * sz + q]))"
proof -
  let ?S = "set (same_group [N, L, w] {1, 2} [n, l, q])"
  let ?T = "set (chunk_group [N, L, C] sz [n, l, k * sz + q])"
  from q w have qs: "q < sz" and "w \<le> C - k * sz" and "q < C - k * sz"
    by simp_all
  then have kC: "k * sz + w \<le> C"
    by linarith
  from qs have kq: "(k * sz + q) div sz = k"
    by simp
  have S: "?S = {j. valid_index [N, L, w] j \<and> j ! 0 = n}"
    by (rule set_same_group_3)
  have T: "?T = {j. valid_index [N, L, C] j \<and> j ! 0 = n \<and> j ! 2 div sz = k}"
    by (simp add: set_chunk_group kq)
  have "sum (\<lambda>j. g (j[2 := k * sz + j ! 2])) ?S = sum g ?T"
  proof (rule sum.reindex_bij_witness [where i = "\<lambda>j. j[2 := j ! 2 - k * sz]"
        and j = "\<lambda>j. j[2 := k * sz + j ! 2]"])
    fix a assume "a \<in> ?S"
    then have "a \<in> {j. valid_index [N, L, w] j \<and> j ! 0 = n}"
      by (simp only: S)
    then have a: "valid_index [N, L, w] a" "a ! 0 = n"
      by simp_all
    from a(1) obtain i j c where abc: "a = [i, j, c]" "i < N" "j < L" "c < w"
      by (rule valid_index_3D)
    show "(a[2 := k * sz + a ! 2])[2 := a[2 := k * sz + a ! 2] ! 2 - k * sz] = a"
      by (simp add: abc)
    have "c < sz" using abc(4) w by simp
    then have "(k * sz + c) div sz = k" by simp
    moreover have "k * sz + c < C" using abc(4) kC by linarith
    ultimately have "a[2 := k * sz + a ! 2] \<in> {j. valid_index [N, L, C] j \<and> j ! 0 = n \<and> j ! 2 div sz = k}"
      using abc a(2) by (simp add: valid_index_3)
    then show "a[2 := k * sz + a ! 2] \<in> ?T"
      by (simp only: T)
    show "g (a[2 := k * sz + a ! 2]) = g (a[2 := k * sz + a ! 2])" ..
  next
    fix b assume "b \<in> ?T"
    then have "b \<in> {j. valid_index [N, L, C] j \<and> j ! 0 = n \<and> j ! 2 div sz = k}"
      by (simp only: T)
    then have b: "valid_index [N, L, C] b" "b ! 0 = n" "b ! 2 div sz = k"
      by simp_all
    from b(1) obtain i j c where abc: "b = [i, j, c]" "i < N" "j < L" "c < C"
      by (rule valid_index_3D)
    from b(3) have ck: "c div sz = k" by (simp add: abc)
    then have ge: "k * sz \<le> c"
      by (metis div_times_less_eq_dividend)
    show "(b[2 := b ! 2 - k * sz])[2 := k * sz + b[2 := b ! 2 - k * sz] ! 2] = b"
      using ge by (simp add: abc)
    have "c - k * sz = c mod sz"
      using ck by (simp add: minus_div_mult_eq_mod [symmetric])
    then have "c - k * sz < sz"
      using sz by simp
    moreover have "c - k * sz < C - k * sz"
      using abc(4) ge by linarith
    ultimately have "c - k * sz < w"
      by (simp add: w)
    then have "b[2 := b ! 2 - k * sz] \<in> {j. valid_index [N, L, w] j \<and> j ! 0 = n}"
      using abc b(2) by (simp add: valid_index_3)
    then show "b[2 := b ! 2 - k * sz] \<in> ?S"
      by (simp only: S)
  qed
  then show ?thesis
    by (simp add: sum_list_distinct_conv_sum_set distinct_same_group distinct_chunk_group)
qed

lemma chunk_stats:
  assumes wf: "wf_tensor x" and fin: "finite_tensor x" and sh: "shape x = [N, L, C]"
    and sz: "0 < sz" and w: "w = min sz (C - k * sz)" and n: "n < N" and l: "l < L" and q: "q < w"
  shows "mean_over (narrow x 2 (k * sz) w) {1, 2} [n, l, q] = chunk_mean x sz [n, l, k * sz + q]"
    and "var_over (narrow x 2 (k * sz) w) {1, 2} [n, l, q] = chunk_var x sz [n, l, k * sz + q]"
proof -
  let ?t = "narrow x 2 (k * sz) w"
  let ?SG = "same_group [N, L, w] {1, 2} [n, l, q]"
  let ?CG = "chunk_group [N, L, C] sz [n, l, k * sz + q]"
  from q w have "w \<le> C - k * sz" and "q < C - k * sz"
    by simp_all
  then have kC: "k * sz + w \<le> C"
    by linarith
  have sht: "shape ?t = [N, L, w]"
    by (rule narrow_facts(1) [OF sh])
  have val: "val_at ?t j = val_at x (j[2 := k * sz + j ! 2])" if "j \<in> set ?SG" for j
  proof -
    from that have "j \<in> {j. valid_index [N, L, w] j \<and> j ! 0 = n}"
      by (simp only: set_same_group_3)
    then have "valid_index [N, L, w] j" by simp
    then obtain a b c where "j = [a, b, c]" "a < N" "b < L" "c < w"
      by (rule valid_index_3D)
    with narrow_finite(2) [OF wf fin sh kC, of a b c] show ?thesis
      by simp
  qed
  have len: "real (length ?SG) = real (length ?CG)"
  proof -
    have "real (length ?SG) = sum_list (map (\<lambda>j. (\<lambda>_. 1) (j[2 := k * sz + j ! 2])) ?SG)"
      by (simp add: sum_list_triv)
    also have "\<dots> = sum_list (map (\<lambda>_. 1) ?CG)"
      by (rule chunk_sum [OF sz w q])
    also have "\<dots> = real (length ?CG)"
      by (simp add: sum_list_triv)
    finally show ?thesis .
  qed
  have "sum_list (map (val_at ?t) ?SG) = sum_list (map (\<lambda>j. val_at x (j[2 := k * sz + j ! 2])) ?SG)"
    by (rule arg_cong [where f = sum_list], rule map_cong [OF refl]) (rule val)
  also have "\<dots> = sum_list (map (val_at x) ?CG)"
    by (rule chunk_sum [OF sz w q])
  finally have sum: "sum_list (map (val_at ?t) ?SG) = sum_list (map (val_at x) ?CG)" .
  show mean: "mean_over ?t {1, 2} [n, l, q] = chunk_mean x sz [n, l, k * sz + q]"
    by (simp only: mean_over_def chunk_mean_def sht sh sum len)
  let ?mu = "chunk_mean x sz [n, l, k * sz + q]"
  have "sum_list (map (\<lambda>j. (val_at ?t j - ?mu)\<^sup>2) ?SG)
      = sum_list (map (\<lambda>j. (\<lambda>j'. (val_at x j' - ?mu)\<^sup>2) (j[2 := k * sz + j ! 2])) ?SG)"
    by (rule arg_cong [where f = sum_list], rule map_cong [OF refl]) (simp add: val)
  also have "\<dots> = sum_list (map (\<lambda>j'. (val_at x j' - ?mu)\<^sup>2) ?CG)"
    by (rule chunk_sum [OF sz w q])
  finally have sq: "sum_list (map (\<lambda>j. (val_at ?t j - ?mu)\<^sup>2) ?SG)
      = sum_list (map (\<lambda>j'. (val_at x j' - ?mu)\<^sup>2) ?CG)" .
  show "var_over ?t {1, 2} [n, l, q] = chunk_var x sz [n, l, k * sz + q]"
    by (simp only: var_over_def chunk_var_def sht sh mean sq len)
qed

lemma torch_cat_chunks:
  assumes ne: "ys \<noteq> []" and sh: "\<And>i. i < length ys \<Longrightarrow> shape (ys ! i) = [N, L, w i]"
  shows "torch_cat ys (- 1)
       = Inr (tabulate [N, L, sum_list (map w [0..<length ys])]
               (\<lambda>idx. case locate (map w [0..<length ys]) (idx ! 2) of
                        (k, q) \<Rightarrow> get (ys ! k) (idx[2 := q])))"
proof -
  from ne obtain t0 rest where ys: "ys = t0 # rest"
    by (cases ys) auto
  have sh0: "shape t0 = [N, L, w 0]"
    using sh [of 0] by (simp add: ys)
  have wrap: "maybe_wrap_dim (- 1) (length (shape t0)) = Inr 2"
    by (simp add: sh0 maybe_wrap_dim_def wrap_range_def)
  have shapes: "\<exists>i<length ys. t = ys ! i" if "t \<in> set ys" for t
    using that by (auto simp: in_set_conv_nth)
  have rank: "find (\<lambda>t. length (shape t) \<noteq> length (shape t0)) ys = None"
    unfolding find_None_iff using shapes sh by (fastforce simp: sh0)
  have sizes: "find (\<lambda>t. (shape t)[2 := 0] \<noteq> (shape t0)[2 := 0]) ys = None"
    unfolding find_None_iff using shapes sh by (fastforce simp: sh0)
  have widths: "map (\<lambda>t. shape t ! 2) ys = map w [0..<length ys]"
    by (rule nth_equalityI) (simp_all add: sh)
  have e: "(shape t0 = []) = False"
    by (simp add: sh0)
  have "torch_cat (t0 # rest) (- 1)
      = Inr (tabulate ((shape t0)[2 := sum_list (map (\<lambda>t. shape t ! 2) (t0 # rest))])
               (\<lambda>idx. case locate (map (\<lambda>t. shape t ! 2) (t0 # rest)) (idx ! 2) of
                        (k, q) \<Rightarrow> get ((t0 # rest) ! k) (idx[2 := q])))"
    using rank sizes unfolding ys
    by (simp only: torch_cat_def list.case e if_False wrap sum.case option.case)
  then show ?thesis
    unfolding ys [symmetric] widths by (simp add: sh0)
qed

lemma group_norm_output_eq:
  assumes wf: "wf_tensor x" and fin: "finite_tensor x" and sh: "shape x = [N, L, C]"
    and G: "1 \<le> G"
  shows "group_norm_output x G = Inr (chunk_normalized x (nat G))"
proof -
  let ?sz = "nat G"
  let ?num = "max ((C + ?sz - 1) div ?sz) 1"
  let ?w = "\<lambda>k. min ?sz (C - k * ?sz)"
  let ?ts = "map (\<lambda>k. narrow x 2 (k * ?sz) (?w k)) [0..<?num]"
  from G have sz: "0 < ?sz" by simp
  have split: "grouped_input x G = Inr ?ts"
    by (rule grouped_input_eq [OF sh G])
  have rank: "length (shape t) = 3" if "t \<in> set ?ts" for t
    using that by (auto simp: narrow_facts(1) [OF sh])
  from group_loop_all [of ?ts "[]", OF rank] obtain ys
    where loop: "group_loop ?ts [] = Inr ys" and len: "length ys = ?num"
      and each: "\<And>i. i < ?num \<Longrightarrow> Normalize (?ts ! i) [1, 2] = Inr (ys ! i)"
    by auto
  have t_nth: "?ts ! i = narrow x 2 (i * ?sz) (?w i)" if "i < ?num" for i
    using that by simp
  have shy: "shape (ys ! i) = [N, L, ?w i]" if i: "i < ?num" for i
  proof -
    have "length (shape (?ts ! i)) = 3"
      by (simp only: t_nth [OF i] narrow_facts(1) [OF sh]) simp
    from Normalize_chunk [OF this] each [OF i] have "shape (ys ! i) = shape (?ts ! i)"
      by auto
    then show ?thesis
      by (simp only: t_nth [OF i] narrow_facts(1) [OF sh])
  qed
  have ne: "ys \<noteq> []"
    using len by auto
  have "C \<le> ?sz * ((C + ?sz - 1) div ?sz)"
    by (rule chunks_cover(1) [OF sz])
  also have "\<dots> \<le> ?sz * ?num"
    by (intro mult_le_mono2) simp
  finally have "min (?num * ?sz) C = C"
    by (simp add: mult.commute)
  then have total: "sum_list (map ?w [0..<length ys]) = C"
    by (simp only: len sum_chunk_widths)
  have cat: "torch_cat ys (- 1)
      = Inr (tabulate [N, L, C]
               (\<lambda>idx. case locate (map ?w [0..<?num]) (idx ! 2) of
                        (k, q) \<Rightarrow> get (ys ! k) (idx[2 := q])))"
  proof -
    have "shape (ys ! i) = [N, L, ?w i]" if "i < length ys" for i
      using that shy by (simp only: len)
    from torch_cat_chunks [OF ne this]
    have "torch_cat ys (- 1)
      = Inr (tabulate [N, L, sum_list (map ?w [0..<length ys])]
               (\<lambda>idx. case locate (map ?w [0..<length ys]) (idx ! 2) of
                        (k, q) \<Rightarrow> get (ys ! k) (idx[2 := q])))" .
    then show ?thesis
      by (simp only: total) (simp only: len)
  qed
  have "(case locate (map ?w [0..<?num]) (idx ! 2) of (k, q) \<Rightarrow> get (ys ! k) (idx[2 := q]))
      = Some ((val_at x idx - chunk_mean x ?sz idx) / sqrt (chunk_var x ?sz idx + eps))"
    if "valid_index [N, L, C] idx" for idx
  proof -
    from that obtain n l c where idx: "idx = [n, l, c]" and n: "n < N" and l: "l < L" and c: "c < C"
      by (rule valid_index_3D)
    let ?k = "c div ?sz" and ?q = "c mod ?sz"
    let ?t = "narrow x 2 (?k * ?sz) (?w ?k)"
    have "?k < (C + ?sz - 1) div ?sz"
      by (rule chunk_of_channel [OF sz c])
    then have k: "?k < ?num" by simp
    from locate_chunk [OF sz c k, of 0]
    have loc: "locate (map ?w [0..<?num]) c = (?k, ?q)"
      by simp
    have kq: "?k * ?sz + ?q = c"
      by simp
    have ksz: "?k * ?sz \<le> c"
      by simp
    have q: "?q < ?w ?k"
    proof -
      have "?q < ?sz" using sz by simp
      moreover have "?q < C - ?k * ?sz"
        using c kq ksz by linarith
      ultimately show ?thesis by simp
    qed
    have "?w ?k \<le> C - ?k * ?sz"
      by simp
    then have kC: "?k * ?sz + ?w ?k \<le> C"
      using c ksz by linarith
    have wft: "wf_tensor ?t" and sht: "shape ?t = [N, L, ?w ?k]"
      by (rule narrow_facts [OF sh])+
    have fint: "finite_tensor ?t"
      by (rule narrow_finite(1) [OF wf fin sh kC])
    have "length (shape ?t) = 3"
      by (simp only: sht) simp
    then have axs: "make_dim_mask [1, 2] (length (shape ?t)) = Inr [1, 2]"
      by (simp only: mask_group)
    have valid: "valid_index (shape ?t) [n, l, ?q]"
      using n l q by (simp only: sht valid_index_3)
    have norm: "Normalize ?t [1, 2] = Inr (ys ! ?k)"
      using each [OF k] by (simp only: t_nth [OF k])
    have "get (ys ! ?k) [n, l, ?q]
        = Some ((val_at ?t [n, l, ?q] - mean_over ?t (set [1, 2]) [n, l, ?q])
                / sqrt (var_over ?t (set [1, 2]) [n, l, ?q] + eps))"
      by (rule normalize_value [OF wft fint axs norm valid])
    also have "set [1, 2] = {1, 2::nat}"
      by simp
    also have "val_at ?t [n, l, ?q] = val_at x [n, l, c]"
      using narrow_finite(2) [OF wf fin sh kC n l q] by (simp only: kq)
    also have "mean_over ?t {1, 2} [n, l, ?q] = chunk_mean x ?sz [n, l, c]"
      using chunk_stats(1) [OF wf fin sh sz refl n l q] by (simp only: kq)
    also have "var_over ?t {1, 2} [n, l, ?q] = chunk_var x ?sz [n, l, c]"
      using chunk_stats(2) [OF wf fin sh sz refl n l q] by (simp only: kq)
    finally have "get (ys ! ?k) [n, l, ?q]
        = Some ((val_at x [n, l, c] - chunk_mean x ?sz [n, l, c])
                / sqrt (chunk_var x ?sz [n, l, c] + eps))" .
    moreover have "idx ! 2 = c" and "idx[2 := ?q] = [n, l, ?q]"
      by (simp_all add: idx)
    ultimately show ?thesis
      by (simp only: loc prod.case) (simp only: idx)
  qed
  then have "tabulate [N, L, C]
               (\<lambda>idx. case locate (map ?w [0..<?num]) (idx ! 2) of
                        (k, q) \<Rightarrow> get (ys ! k) (idx[2 := q]))
      = chunk_normalized x ?sz"
    unfolding chunk_normalized_def sh by (rule tabulate_cong)
  with split loop cat show ?thesis
    by (simp add: group_norm_output_def)
qed

lemma chunk_var_nonneg: "0 \<le> chunk_var x width idx"
  unfolding chunk_var_def by (intro divide_nonneg_nonneg sum_list_nonneg) auto

lemma chunk_normalized_get:
  assumes "valid_index (shape x) idx"
  shows "get (chunk_normalized x width) idx
       = Some ((val_at x idx - chunk_mean x width idx) / sqrt (chunk_var x width idx + eps))"
  using assms by (simp add: chunk_normalized_def get_tabulate)

text \<open>The tensor that is 1 on the channel 0 and 0 elsewhere.\<close>

lemma first_channel_values:
  assumes "valid_index [N, L, C] idx"
  shows "val_at (first_channel N L C) idx = (if idx ! 2 = 0 then 1 else 0)"
  using assms by (simp add: first_channel_def val_at_def get_tabulate)

lemma first_channel_facts:
  "wf_tensor (first_channel N L C)" "finite_tensor (first_channel N L C)"
  "shape (first_channel N L C) = [N, L, C]"
  unfolding first_channel_def by (simp_all add: finite_tabulate)

lemma first_channel_separates:
  assumes N: "0 < N" and L: "0 < L" and ab: "0 < a" "a < b" "b \<le> C"
  shows "get (chunk_normalized (first_channel N L C) a) [0, 0, a] = Some 0"
    and "get (chunk_normalized (first_channel N L C) b) [0, 0, a] \<noteq> Some 0"
proof -
  let ?x = "first_channel N L C"
  note sh = first_channel_facts(3) [of N L C]
  from N L ab have valid: "valid_index (shape ?x) [0, 0, a]"
    by (simp add: sh valid_index_3)
  have zero: "val_at ?x [0, 0, a] = 0"
    using valid ab(1) by (simp add: first_channel_values sh)
  have "\<forall>v \<in> set (map (val_at ?x) (chunk_group [N, L, C] a [0, 0, a])). v = 0"
  proof
    fix v assume "v \<in> set (map (val_at ?x) (chunk_group [N, L, C] a [0, 0, a]))"
    then obtain j where j: "j \<in> set (chunk_group [N, L, C] a [0, 0, a])" and v: "v = val_at ?x j"
      by auto
    from j have vj: "valid_index [N, L, C] j" and "j ! 2 div a = a div a"
      by (simp_all add: set_chunk_group)
    with ab(1) have "j ! 2 div a = 1" by simp
    then have "j ! 2 \<noteq> 0" by (cases "j ! 2 = 0") simp_all
    with vj v show "v = 0"
      by (simp add: first_channel_values)
  qed
  then have "map (val_at ?x) (chunk_group [N, L, C] a [0, 0, a])
      = map (\<lambda>_. 0) (chunk_group [N, L, C] a [0, 0, a])"
    by simp
  then have "sum_list (map (val_at ?x) (chunk_group [N, L, C] a [0, 0, a])) = 0"
    by (simp only: sum_list_triv mult_zero_right)
  then have "chunk_mean ?x a [0, 0, a] = 0"
    by (simp add: chunk_mean_def sh)
  with zero show "get (chunk_normalized ?x a) [0, 0, a] = Some 0"
    by (simp add: chunk_normalized_get [OF valid])
  let ?g = "chunk_group [N, L, C] b [0, 0, a]"
  have nonneg: "\<And>v. v \<in> set (map (val_at ?x) ?g) \<Longrightarrow> 0 \<le> v"
    by (auto simp: set_chunk_group first_channel_values)
  have "valid_index [N, L, C] [0, 0, 0]"
    using N L ab by (simp add: valid_index_3)
  moreover have "(0::nat) div b = a div b"
    using ab by simp
  ultimately have mem: "[0, 0, 0] \<in> set ?g"
    by (simp add: set_chunk_group)
  have "val_at ?x [0, 0, 0] = 1"
    using \<open>valid_index [N, L, C] [0, 0, 0]\<close> by (simp add: first_channel_values)
  with mem have "\<not> (\<forall>v \<in> set (map (val_at ?x) ?g). v = 0)"
    by (metis image_eqI list.set_map zero_neq_one)
  moreover have "sum_list (map (val_at ?x) ?g) = 0
      \<longleftrightarrow> (\<forall>v \<in> set (map (val_at ?x) ?g). v = 0)"
    by (rule sum_list_nonneg_eq_0_iff) (rule nonneg)
  ultimately have "sum_list (map (val_at ?x) ?g) \<noteq> 0"
    by blast
  moreover have "0 \<le> sum_list (map (val_at ?x) ?g)"
    using nonneg by (rule sum_list_nonneg)
  ultimately have "0 < sum_list (map (val_at ?x) ?g)"
    by simp
  moreover from mem have "0 < length ?g"
    by (auto simp: length_greater_0_conv)
  ultimately have mu: "0 < chunk_mean ?x b [0, 0, a]"
    by (simp add: chunk_mean_def sh)
  have "0 < sqrt (chunk_var ?x b [0, 0, a] + eps)"
    using chunk_var_nonneg [of ?x b "[0, 0, a]"] by (simp add: eps_def add_nonneg_pos)
  with mu have "(0 - chunk_mean ?x b [0, 0, a]) / sqrt (chunk_var ?x b [0, 0, a] + eps) < 0"
    by (intro divide_neg_pos) simp_all
  then have "(0 - chunk_mean ?x b [0, 0, a]) / sqrt (chunk_var ?x b [0, 0, a] + eps) \<noteq> 0"
    by (rule less_imp_neq)
  then show "get (chunk_normalized ?x b) [0, 0, a] \<noteq> Some 0"
    by (simp only: chunk_normalized_get [OF valid] zero option.inject) simp
qed

lemma chunk_widths_differ:
  assumes "0 < N" and "0 < L" and "0 < a" and "0 < b" and "a \<noteq> b" and "a \<le> C" and "b \<le> C"
  shows "chunk_normalized (first_channel N L C) a \<noteq> chunk_normalized (first_channel N L C) b"
proof (cases "a < b")
  case True
  from first_channel_separates [OF assms(1,2,3) True assms(7)] show ?thesis
    by metis
next
  case False
  with assms(5) have "b < a" by simp
  from first_channel_separates [OF assms(1,2,4) this assms(6)] show ?thesis
    by metis
qed

lemma chunk_widths_equal_groups:
  fixes C sz :: nat
  assumes sz: "0 < sz" and C: "0 < C"
  shows "map (\<lambda>k. min sz (C - k * sz)) [0..<max ((C + sz - 1) div sz) 1] = replicate sz (C div sz)
         \<longleftrightarrow> C = sz * sz"
proof
  let ?num = "max ((C + sz - 1) div sz) 1"
  let ?w = "\<lambda>k. min sz (C - k * sz)"
  assume eq: "map ?w [0..<?num] = replicate sz (C div sz)"
  then have "length (map ?w [0..<?num]) = length (replicate sz (C div sz))"
    by (rule arg_cong)
  then have num: "?num = sz"
    by simp
  from eq have "sum_list (map ?w [0..<?num]) = sum_list (replicate sz (C div sz))"
    by (rule arg_cong)
  then have "min (?num * sz) C = sz * (C div sz)"
    by (simp only: sum_chunk_widths sum_list_replicate) simp
  moreover have "C \<le> ?num * sz"
  proof -
    have "C \<le> sz * ((C + sz - 1) div sz)"
      by (rule chunks_cover(1) [OF sz])
    also have "\<dots> \<le> sz * ?num"
      by (rule mult_le_mono2) (rule max.cobounded1)
    finally show ?thesis
      by (simp only: mult.commute)
  qed
  ultimately have total: "C = sz * (C div sz)"
    by (simp only: min_absorb2)
  from eq have "map ?w [0..<?num] ! 0 = replicate sz (C div sz) ! 0"
    by (rule arg_cong)
  with sz num have first: "min sz C = C div sz"
    by simp
  show "C = sz * sz"
  proof (cases "sz \<le> C")
    case True
    with first have "C div sz = sz" by simp
    with total show ?thesis by simp
  next
    case False
    with first have "C = C div sz" by simp
    moreover from False have "C div sz = 0" by simp
    ultimately show ?thesis using C by simp
  qed
next
  assume Csz: "C = sz * sz"
  have "(sz * sz + sz - 1) div sz = sz"
  proof -
    have "sz * sz + sz - 1 = sz * sz + (sz - 1)"
      using sz by simp
    then have "(sz * sz + sz - 1) div sz = (sz * sz + (sz - 1)) div sz"
      by (rule arg_cong)
    also have "\<dots> = sz + (sz - 1) div sz"
      using sz by (intro div_mult_self4) simp
    also have "(sz - 1) div sz = 0"
      using sz by (intro div_less) simp
    finally show ?thesis by simp
  qed
  then have num: "max ((C + sz - 1) div sz) 1 = sz"
    using sz by (simp add: Csz)
  have "min sz (C - k * sz) = sz" if "k < sz" for k
  proof -
    from that have "Suc k \<le> sz" by simp
    then have "Suc k * sz \<le> sz * sz" by (rule mult_le_mono1)
    then show ?thesis by (simp add: Csz)
  qed
  then have "map (\<lambda>k. min sz (C - k * sz)) [0..<sz] = map (\<lambda>_. sz) [0..<sz]"
    by simp
  also have "\<dots> = replicate sz sz"
    by (simp add: map_replicate_trivial)
  finally show "map (\<lambda>k. min sz (C - k * sz)) [0..<max ((C + sz - 1) div sz) 1]
      = replicate sz (C div sz)"
    using sz by (simp only: num) (simp add: Csz)
qed

lemma grouped_input_count:
  assumes "shape x = [N, L, C]" and "1 \<le> G"
  shows "\<exists>groups. grouped_input x G = Inr groups
           \<and> length groups = (if C = 0 then 1 else nat \<lceil>real C / real_of_int G\<rceil>)
           \<and> map (\<lambda>t. shape t ! 2) groups
               = map (\<lambda>k. min (nat G) (C - k * nat G)) [0..<max ((C + nat G - 1) div nat G) 1]"
proof -
  let ?sz = "nat G"
  let ?q = "(C + ?sz - 1) div ?sz"
  let ?groups = "map (\<lambda>k. narrow x 2 (k * ?sz) (min ?sz (C - k * ?sz))) [0..<max ?q 1]"
  from assms(2) have sz: "0 < ?sz" and G: "real_of_int G = real ?sz"
    by simp_all
  have ceil: "nat \<lceil>real C / real_of_int G\<rceil> = ?q"
    by (simp only: G chunks_ceiling [OF sz] nat_int)
  have "max ?q 1 = (if C = 0 then 1 else ?q)"
  proof (cases "C = 0")
    case True
    then have "?q = 0" using sz by simp
    with True show ?thesis by simp
  next
    case False
    then have "?q = Suc ((C - 1) div ?sz)"
      using sz by (intro chunks_Suc) simp_all
    with False show ?thesis by simp
  qed
  then have "length ?groups = (if C = 0 then 1 else nat \<lceil>real C / real_of_int G\<rceil>)"
    by (simp only: ceil length_map length_upt minus_nat.diff_0)
  moreover have "map (\<lambda>t. shape t ! 2) ?groups
      = map (\<lambda>k. min ?sz (C - k * ?sz)) [0..<max ?q 1]"
    by (simp add: narrow_facts(1) [OF assms(1)] comp_def)
  ultimately show ?thesis
    using grouped_input_eq [OF assms] by blast
qed

text \<open>
  C9 (as amended). For every finite input of shape (N, L, C) and every
  \<open>num_groups \<ge> 1\<close>, the hand-written group normalization cuts the channels into chunks
  of \<open>num_groups\<close> channels: for \<open>C \<ge> 1\<close> it makes \<open>ceil (C / num_groups)\<close> groups
  (one group for \<open>C = 0\<close>), and every element of the output, which has the shape of the
  input, is normalized with the mean and the biased variance over all time steps and
  the channels of its chunk. The chunks are \<open>num_groups\<close> groups of \<open>C / num_groups\<close>
  channels exactly when \<open>C = num_groups * num_groups\<close>; then the output is the one of
  \<open>num_groups\<close> equal groups, and otherwise (with \<open>num_groups\<close> dividing \<open>C\<close> and no
  empty axis) some input of that shape gives another output.
\<close>

theorem group_norm_chunks:
  assumes "wf_tensor x" and "finite_tensor x" and "shape x = [N, L, C]" and "1 \<le> num_groups"
  shows "\<exists>groups out.
           grouped_input x num_groups = Inr groups \<and> group_norm_output x num_groups = Inr out
         \<and> length groups = (if C = 0 then 1 else nat \<lceil>real C / real_of_int num_groups\<rceil>)
         \<and> shape out = shape x
         \<and> (\<forall>idx. valid_index (shape x) idx \<longrightarrow>
               get out idx = Some ((val_at x idx - chunk_mean x (nat num_groups) idx)
                                   / sqrt (chunk_var x (nat num_groups) idx + eps)))
         \<and> (int C = num_groups * num_groups \<longrightarrow>
               out = chunk_normalized x (C div nat num_groups))
         \<and> (0 < C \<longrightarrow>
               (map (\<lambda>t. shape t ! 2) groups = replicate (nat num_groups) (C div nat num_groups)
                \<longleftrightarrow> int C = num_groups * num_groups))
         \<and> (0 < N \<and> 0 < L \<and> 0 < C \<and> nat num_groups dvd C \<and> int C \<noteq> num_groups * num_groups \<longrightarrow>
               (\<exists>x'. wf_tensor x' \<and> finite_tensor x' \<and> shape x' = [N, L, C]
                   \<and> group_norm_output x' num_groups
                       \<noteq> Inr (chunk_normalized x' (C div nat num_groups))))"
proof -
  let ?sz = "nat num_groups"
  from assms(4) have sz: "0 < ?sz"
    by simp
  have sq: "int C = num_groups * num_groups \<longleftrightarrow> C = ?sz * ?sz"
  proof -
    from assms(4) have "num_groups * num_groups = int (?sz * ?sz)"
      by simp
    then show ?thesis
      by (simp only: of_nat_eq_iff)
  qed
  from grouped_input_count [OF assms(3,4)] obtain groups
    where groups: "grouped_input x num_groups = Inr groups"
      and count: "length groups = (if C = 0 then 1 else nat \<lceil>real C / real_of_int num_groups\<rceil>)"
      and widths: "map (\<lambda>t. shape t ! 2) groups
               = map (\<lambda>k. min ?sz (C - k * ?sz)) [0..<max ((C + ?sz - 1) div ?sz) 1]"
    by blast
  let ?out = "chunk_normalized x ?sz"
  have out: "group_norm_output x num_groups = Inr ?out"
    by (rule group_norm_output_eq [OF assms])
  have shape: "shape ?out = shape x"
    by (simp add: chunk_normalized_def)
  have elts: "\<forall>idx. valid_index (shape x) idx \<longrightarrow>
      get ?out idx = Some ((val_at x idx - chunk_mean x ?sz idx) / sqrt (chunk_var x ?sz idx + eps))"
    by (simp add: chunk_normalized_get)
  have same: "int C = num_groups * num_groups \<longrightarrow> ?out = chunk_normalized x (C div ?sz)"
    using sz by (simp add: sq)
  have parts: "0 < C \<longrightarrow>
      (map (\<lambda>t. shape t ! 2) groups = replicate ?sz (C div ?sz)
       \<longleftrightarrow> int C = num_groups * num_groups)"
    using chunk_widths_equal_groups [OF sz, of C] by (simp only: widths sq) blast
  have other: "\<exists>x'. wf_tensor x' \<and> finite_tensor x' \<and> shape x' = [N, L, C]
      \<and> group_norm_output x' num_groups \<noteq> Inr (chunk_normalized x' (C div ?sz))"
    if N: "0 < N" and L: "0 < L" and C: "0 < C" and dvd: "?sz dvd C"
      and neq: "int C \<noteq> num_groups * num_groups"
  proof -
    let ?x' = "first_channel N L C"
    note f = first_channel_facts [of N L C]
    from dvd have prod: "C = ?sz * (C div ?sz)"
      by simp
    with C have b: "0 < C div ?sz"
      by (metis mult_0_right not_gr_zero)
    from prod neq have ab: "?sz \<noteq> C div ?sz"
      by (metis sq)
    from dvd C have le: "?sz \<le> C"
      by (rule dvd_imp_le)
    have "chunk_normalized ?x' ?sz \<noteq> chunk_normalized ?x' (C div ?sz)"
      by (rule chunk_widths_differ [OF N L sz b ab le]) simp
    moreover have "group_norm_output ?x' num_groups = Inr (chunk_normalized ?x' ?sz)"
      by (rule group_norm_output_eq [OF f assms(4)])
    ultimately show ?thesis
      using f by (intro exI [of _ ?x']) simp
  qed
  from groups out count shape elts same parts other show ?thesis
    by blast
qed

lemma example_sequence_facts:
  "wf_tensor example_sequence" "finite_tensor example_sequence"
  "shape example_sequence = [1, 2, 4]" "valid_index (shape example_sequence) [0, 0, 0]"
  "val_at example_sequence [0, 0, 0] = 1"
  by (simp_all add: example_sequence_def wf_tensor_def finite_tensor_def valid_index_def
      val_at_def get_def)

lemma example_sequence_stats:
  "chunk_mean example_sequence 2 [0, 0, 0] = 2" "chunk_var example_sequence 2 [0, 0, 0] = 1"
  by (simp_all add: chunk_var_def chunk_mean_def chunk_group_def example_sequence_def indices_def
      val_at_def get_def upt_conv_Cons)

theorem group_norm_chunks_witness:
  "wf_tensor example_sequence \<and> finite_tensor example_sequence
   \<and> shape example_sequence = [1, 2, 4]
   \<and> result_count (grouped_input example_sequence 2) = Inr 2
   \<and> result_shape (group_norm_output example_sequence 2) = Inr [1, 2, 4]
   \<and> result_at (group_norm_output example_sequence 2) [0, 0, 0] = Inr (Some (- 1 / sqrt (1 + eps)))"
proof -
  note f = example_sequence_facts
  have G: "(1::int) \<le> 2"
    by simp
  from group_norm_chunks [OF f(1,2,3) G] obtain groups out
    where r: "grouped_input example_sequence 2 = Inr groups"
        "group_norm_output example_sequence 2 = Inr out"
      and count: "length groups = (if (4::nat) = 0 then 1 else nat \<lceil>real 4 / real_of_int 2\<rceil>)"
      and shape: "shape out = shape example_sequence"
      and elts: "\<forall>idx. valid_index (shape example_sequence) idx \<longrightarrow>
               get out idx = Some ((val_at example_sequence idx - chunk_mean example_sequence (nat 2) idx)
                                   / sqrt (chunk_var example_sequence (nat 2) idx + eps))"
    by blast
  have "nat 2 = (2::nat)"
    by simp
  with elts f(4) have "get out [0, 0, 0]
      = Some ((val_at example_sequence [0, 0, 0] - chunk_mean example_sequence 2 [0, 0, 0])
              / sqrt (chunk_var example_sequence 2 [0, 0, 0] + eps))"
    by metis
  then have "get out [0, 0, 0] = Some ((1 - 2) / sqrt (1 + eps))"
    by (simp only: f(5) example_sequence_stats)
  moreover from count have "length groups = 2"
    by simp
  ultimately show ?thesis
    using r shape f(1,2,3) by (simp add: result_count_def result_shape_def result_at_def)
qed

text \<open>
  C9 as stated fails for an input without channels: of the example of shape (1, 1, 0)
  the split makes one group, not \<open>ceil (0 / 2) = 0\<close> groups.
\<close>

theorem group_count_counterexample:
  "result_count (grouped_input example_no_channel 2) \<noteq> Inr (nat \<lceil>real 0 / real_of_int 2\<rceil>)"
proof -
  have "shape example_no_channel = [1, 1, 0]"
    by (simp add: example_no_channel_def)
  from grouped_input_count [OF this, of 2] have "result_count (grouped_input example_no_channel 2) = Inr 1"
    by (auto simp: result_count_def)
  then show ?thesis by simp
qed

section \<open>Weight normalization in float32: the division by the norm\<close>

lemma round_half_even_zero:
  assumes "0 \<le> x" and "x \<le> 1 / 2"
  shows "round_half_even x = 0"
proof -
  from assms have "\<lfloor>x\<rfloor> = 0"
    by (intro floor_unique) simp_all
  with assms show ?thesis
    by (simp add: round_half_even_def Let_def)
qed

lemma round_half_even_pos:
  assumes "1 / 2 < x"
  shows "1 \<le> round_half_even x"
proof (cases "1 \<le> x")
  case True
  then have "1 \<le> \<lfloor>x\<rfloor>"
    by (simp add: le_floor_iff)
  then show ?thesis
    by (simp add: round_half_even_def Let_def)
next
  case False
  with assms have "\<lfloor>x\<rfloor> = 0"
    by (intro floor_unique) simp_all
  with assms show ?thesis
    by (simp add: round_half_even_def Let_def)
qed

lemma find_Some_mem:
  assumes "find P xs = Some x"
  shows "P x" and "x \<in> set xs"
  using assms by (induction xs) (auto split: if_splits)

lemma ulp_exponent_cases:
  obtains "ulp_exponent r = -149" and "\<bar>r\<bar> < 2 powi (-125)"
  | "-148 \<le> ulp_exponent r" and "2 powi (ulp_exponent r + 23) \<le> \<bar>r\<bar>"
proof (cases "find (\<lambda>e. 2 powi (e + 23) \<le> \<bar>r\<bar>) (rev [-148..104])")
  case None
  moreover have "-148 \<in> set (rev [-148..104])"
    by (simp only: set_rev set_upto atLeastAtMost_iff) simp
  ultimately have "\<not> 2 powi (-148 + 23) \<le> \<bar>r\<bar>"
    unfolding find_None_iff by blast
  then have "\<bar>r\<bar> < 2 powi (-125)"
    by simp
  moreover from None have "ulp_exponent r = -149"
    by (simp add: ulp_exponent_def)
  ultimately show ?thesis
    using that(1) by blast
next
  case (Some e)
  then have "ulp_exponent r = e"
    by (simp add: ulp_exponent_def)
  from find_Some_mem(2) [OF Some] have "e \<in> {-148..104}"
    by (simp only: set_rev set_upto)
  then have "-148 \<le> e"
    by (simp only: atLeastAtMost_iff)
  with find_Some_mem(1) [OF Some] \<open>ulp_exponent r = e\<close> show ?thesis
    by (intro that(2)) simp_all
qed

lemma ulp_exponent_ge: "-149 \<le> ulp_exponent r"
  by (rule ulp_exponent_cases [of r]) simp_all

lemma round_float32_zero:
  assumes "0 \<le> r" and "r \<le> 2 powi (-150)"
  shows "round_float32 r = Finite 0"
proof -
  have "(2::real) powi (-150) < 2 powi (-125)"
    by (simp add: power_int_minus)
  with assms have small: "\<bar>r\<bar> < 2 powi (-125)"
    by simp
  have e: "ulp_exponent r = -149"
  proof (rule ulp_exponent_cases [of r])
    assume "-148 \<le> ulp_exponent r" and "2 powi (ulp_exponent r + 23) \<le> \<bar>r\<bar>"
    moreover from \<open>-148 \<le> ulp_exponent r\<close>
    have "(2::real) powi (-125) \<le> 2 powi (ulp_exponent r + 23)"
      by (intro power_int_increasing) simp_all
    ultimately show ?thesis
      using small by simp
  qed
  have "r / 2 powi (-149) \<le> 1 / 2"
    using assms(2) by (simp add: power_int_minus field_simps)
  moreover have "0 \<le> r / 2 powi (-149)"
    using assms(1) by simp
  ultimately have "round_half_even (r / 2 powi (-149)) = 0"
    by (intro round_half_even_zero)
  then show ?thesis
    by (simp add: round_float32_def e Let_def)
qed

lemma round_float32_positive:
  assumes "2 powi (-150) < r"
  shows "float32_positive (round_float32 r)"
proof -
  let ?e = "ulp_exponent r"
  let ?q = "round_half_even (r / 2 powi ?e)"
  have p: "(0::real) < 2 powi ?e"
    by (simp add: zero_less_power_int)
  have "(0::real) < 2 powi (-150)"
    by (simp add: zero_less_power_int)
  with assms have r: "0 < r"
    by simp
  have half: "1 / 2 < r / 2 powi ?e"
  proof (rule ulp_exponent_cases [of r])
    assume e: "?e = -149"
    from assms show ?thesis
      by (simp add: e power_int_minus field_simps)
  next
    assume "2 powi (?e + 23) \<le> \<bar>r\<bar>"
    then have "2 powi ?e * 2 ^ 23 \<le> r"
      using r by (simp add: power_int_add)
    then have "2 ^ 23 \<le> r / 2 powi ?e"
      using p by (simp add: field_simps)
    moreover have "(1 / 2 :: real) < 2 ^ 23"
      by simp
    ultimately show ?thesis
      by (rule less_le_trans [rotated])
  qed
  then have "1 \<le> ?q"
    by (rule round_half_even_pos)
  then have "(1::real) \<le> of_int ?q"
    by simp
  then have "1 * 2 powi ?e \<le> real_of_int ?q * 2 powi ?e"
    using p by (intro mult_right_mono) simp_all
  then have a: "2 powi ?e \<le> real_of_int ?q * 2 powi ?e"
    by (simp only: mult_1)
  have b: "(2::real) powi (-149) \<le> 2 powi ?e"
    using ulp_exponent_ge [of r] by (intro power_int_increasing) simp_all
  from b a have v: "2 powi (-149) \<le> real_of_int ?q * 2 powi ?e"
    by (rule order_trans)
  note v
  moreover have "(0::real) < 2 powi (-149)"
    by (simp add: zero_less_power_int)
  moreover have "- (2 ^ 128) < (0::real)"
    by simp
  ultimately have "\<not> real_of_int ?q * 2 powi ?e \<le> - (2 ^ 128)"
    by linarith
  then have neg: "(real_of_int ?q * 2 powi ?e \<le> - (2 ^ 128)) = False"
    by simp
  show ?thesis
  proof (cases "2 ^ 128 \<le> real_of_int ?q * 2 powi ?e")
    case True
    then show ?thesis
      by (simp only: round_float32_def Let_def if_True float32_positive_def float32.case)
  next
    case False
    then have "round_float32 r = Finite (real_of_int ?q * 2 powi ?e)"
      by (simp only: round_float32_def Let_def neg if_False)
    with v show ?thesis
      by (simp only: float32_positive_def float32.case)
  qed
qed

lemma float32_positive_pos:
  assumes "float32_positive (Finite v)"
  shows "2 powi (-150) < v" and "0 < v"
proof -
  have "(2::real) powi (-150) < 2 powi (-149)" and "(0::real) < 2 powi (-150)"
    by (simp_all add: power_int_minus)
  with assms show "2 powi (-150) < v" and "0 < v"
    by (simp_all add: float32_positive_def)
qed

lemma float32_positive_cases:
  assumes "float32_positive a"
  obtains v where "a = Finite v" and "2 powi (-150) < v" and "0 < v" | "a = PosInf"
proof (cases a)
  case (Finite v)
  with assms float32_positive_pos [of v] that(1) show ?thesis
    by simp
next
  case PosInf
  with that(2) show ?thesis
    by simp
next
  case NegInf
  with assms show ?thesis
    by (simp add: float32_positive_def)
next
  case NaN
  with assms show ?thesis
    by (simp add: float32_positive_def)
qed

lemma float32_positive_nonzero: "float32_positive a \<Longrightarrow> a \<noteq> Finite 0"
  by (erule float32_positive_cases) simp_all

lemma round_float32_not_NaN: "round_float32 r \<noteq> NaN"
  by (simp add: round_float32_def Let_def)

lemma square_rounds:
  "square_underflows x \<Longrightarrow> float32_mul (Finite x) (Finite x) = Finite 0"
  "\<not> square_underflows x \<Longrightarrow> float32_positive (float32_mul (Finite x) (Finite x))"
  by (simp_all add: float32_mul_def square_underflows_def round_float32_zero
      round_float32_positive)

lemma float32_add_zero: "float32_add (Finite 0) (Finite 0) = Finite 0"
  by (simp add: float32_add_def round_float32_zero)

lemma float32_add_positive:
  assumes "float32_nonneg a" and "float32_nonneg b"
    and "float32_positive a \<or> float32_positive b"
  shows "float32_positive (float32_add a b)"
proof -
  have fin: "float32_positive (float32_add (Finite x) (Finite y))"
    if "0 \<le> x" and "0 \<le> y" and "2 powi (-150) < x \<or> 2 powi (-150) < y" for x y
  proof -
    from that have "2 powi (-150) < x + y"
      by auto
    then show ?thesis
      by (simp add: float32_add_def round_float32_positive)
  qed
  have inf: "float32_positive PosInf"
    by (simp add: float32_positive_def)
  from assms(1) consider "a = Finite 0" | "float32_positive a"
    by (auto simp: float32_nonneg_def)
  then show ?thesis
  proof cases
    case 1
    with assms(3) float32_positive_nonzero have "float32_positive b"
      by auto
    then show ?thesis
    proof (cases rule: float32_positive_cases)
      case (1 v)
      with \<open>a = Finite 0\<close> fin [of 0 v] show ?thesis by simp
    next
      case 2
      with \<open>a = Finite 0\<close> inf show ?thesis by (simp add: float32_add_def)
    qed
  next
    case 2
    then show ?thesis
    proof (cases rule: float32_positive_cases)
      case a: (1 v)
      from assms(2) consider "b = Finite 0" | "float32_positive b"
        by (auto simp: float32_nonneg_def)
      then show ?thesis
      proof cases
        case 1
        with a fin [of v 0] show ?thesis by simp
      next
        case 2
        then show ?thesis
        proof (cases rule: float32_positive_cases)
          case (1 u)
          with a fin [of v u] show ?thesis by simp
        next
          case 2
          with a inf show ?thesis by (simp add: float32_add_def)
        qed
      qed
    next
      case a: 2
      from assms(2) consider "b = Finite 0" | "float32_positive b"
        by (auto simp: float32_nonneg_def)
      then show ?thesis
      proof cases
        case 1
        with a inf show ?thesis by (simp add: float32_add_def)
      next
        case 2
        then show ?thesis
          using a inf by (cases rule: float32_positive_cases) (simp_all add: float32_add_def)
      qed
    qed
  qed
qed

lemma sum_of_squares:
  assumes "float32_nonneg acc"
  shows "(acc = Finite 0 \<and> (\<forall>x \<in> set xs. square_underflows x) \<longrightarrow>
            foldl (\<lambda>acc v. float32_add acc (float32_mul v v)) acc (map Finite xs) = Finite 0)
       \<and> (\<not> (acc = Finite 0 \<and> (\<forall>x \<in> set xs. square_underflows x)) \<longrightarrow>
            float32_positive
              (foldl (\<lambda>acc v. float32_add acc (float32_mul v v)) acc (map Finite xs)))"
  using assms
proof (induction xs arbitrary: acc)
  case Nil
  then show ?case
    by (auto simp: float32_nonneg_def)
next
  case (Cons x xs)
  let ?s = "float32_mul (Finite x) (Finite x)"
  let ?acc = "float32_add acc ?s"
  have s: "float32_nonneg ?s"
    using square_rounds [of x] by (auto simp: float32_nonneg_def)
  show ?case
  proof (cases "acc = Finite 0 \<and> square_underflows x")
    case True
    then have z: "?acc = Finite 0"
      by (simp add: square_rounds(1) float32_add_zero)
    then have "float32_nonneg ?acc"
      by (simp add: float32_nonneg_def)
    from Cons.IH [OF this] z True show ?thesis
      by simp
  next
    case False
    with Cons.prems square_rounds(2) [of x] have "float32_positive acc \<or> float32_positive ?s"
      by (auto simp: float32_nonneg_def)
    from float32_add_positive [OF Cons.prems s this] have p: "float32_positive ?acc" .
    then have "float32_nonneg ?acc" and "?acc \<noteq> Finite 0"
      by (simp_all add: float32_nonneg_def float32_positive_nonzero)
    with Cons.IH [of ?acc] False show ?thesis
      by auto
  qed
qed

lemma float32_sqrt_zero: "float32_sqrt (Finite 0) = Finite 0"
  by (simp add: float32_sqrt_def round_float32_zero)

lemma float32_sqrt_positive:
  assumes "float32_positive a"
  shows "float32_positive (float32_sqrt a)"
  using assms
proof (cases rule: float32_positive_cases)
  case (1 v)
  have "((2::real) powi (-150))\<^sup>2 < 2 powi (-150)"
    by (simp add: power_int_minus power2_eq_square)
  with 1 have "(2 powi (-150))\<^sup>2 < v"
    by simp
  then have "2 powi (-150) < sqrt v"
    by (rule real_less_rsqrt)
  with 1 show ?thesis
    by (simp add: float32_sqrt_def round_float32_positive)
next
  case 2
  then show ?thesis
    by (simp add: float32_sqrt_def float32_positive_def)
qed

lemma norm_float32_cases:
  "(\<forall>x \<in> set xs. square_underflows x) \<Longrightarrow> norm_float32 (map Finite xs) = Finite 0"
  "\<not> (\<forall>x \<in> set xs. square_underflows x) \<Longrightarrow> float32_positive (norm_float32 (map Finite xs))"
proof -
  have nn: "float32_nonneg (Finite 0)"
    by (simp add: float32_nonneg_def)
  note s = sum_of_squares [OF nn, of xs]
  show "norm_float32 (map Finite xs) = Finite 0" if "\<forall>x \<in> set xs. square_underflows x"
    using s that by (simp add: norm_float32_def float32_sqrt_zero)
  show "float32_positive (norm_float32 (map Finite xs))"
    if "\<not> (\<forall>x \<in> set xs. square_underflows x)"
    using s that by (simp add: norm_float32_def float32_sqrt_positive)
qed

lemma float32_div_zero: "float32_div (Finite x) (Finite 0) = division_by_zero x"
  by (simp add: float32_div_def division_by_zero_def)

lemma float32_div_positive:
  assumes "float32_positive n"
  shows "float32_div (Finite x) n
           = (case n of Finite m \<Rightarrow> round_float32 (x / m) | _ \<Rightarrow> Finite 0)"
    and "float32_div (Finite x) n \<noteq> NaN"
  using assms
  by (cases rule: float32_positive_cases; simp add: float32_div_def round_float32_not_NaN)+

lemma direction_float32_eq: "weight_direction_float32 W = direction_float32 W"
proof -
  have "zip W (map norm_float32 W) = map (\<lambda>row. (row, norm_float32 row)) W"
    by (induction W) simp_all
  then show ?thesis
    by (simp add: weight_direction_float32_def direction_float32_def
        weight_magnitude_float32_def comp_def)
qed

lemma direction_float32_row:
  assumes "i < length w"
  shows "weight_magnitude_float32 (float32_matrix w) ! i = norm_float32 (map Finite (w ! i))"
    and "weight_direction_float32 (float32_matrix w) ! i
           = map (\<lambda>x. float32_div (Finite x) (norm_float32 (map Finite (w ! i)))) (w ! i)"
  using assms
  by (simp_all add: direction_float32_eq direction_float32_def weight_magnitude_float32_def
      float32_matrix_def comp_def)

text \<open>
  C10 (as amended). In float32 the direction divides each row of the weight by the
  computed norm of the row, with no epsilon. The computed norm of a row is 0 exactly when
  the square of every element of the row rounds to 0, that is when no element is larger
  in magnitude than \<open>2^-75\<close>: an all-zero row, and also a nonzero row of elements that
  small. Then every element of the direction of the row is the result of a division by
  zero: \<open>nan\<close> for a zero element, an infinity for a nonzero one. Under the
  precondition that the row has an element larger in magnitude than \<open>2^-75\<close> the computed
  norm is a positive number or \<open>+inf\<close>, the division by zero is not reached, and every
  element of the direction is the rounded quotient (0 for the norm \<open>+inf\<close>), never
  \<open>nan\<close>. Both cells compute the same direction.
\<close>

theorem direction_division_by_zero_iff:
  assumes "W = float32_matrix w" and "i < length w" and "row = w ! i"
    and "n = norm_float32 (map Finite row)"
  shows "weight_direction_float32 W = direction_float32 W
       \<and> weight_magnitude_float32 W ! i = n
       \<and> weight_direction_float32 W ! i = map (\<lambda>x. float32_div (Finite x) n) row
       \<and> (n = Finite 0 \<longleftrightarrow> (\<forall>x \<in> set row. square_underflows x))
       \<and> (n = Finite 0 \<longrightarrow> weight_direction_float32 W ! i = map division_by_zero row)
       \<and> (n \<noteq> Finite 0 \<longrightarrow>
            float32_positive n
          \<and> weight_direction_float32 W ! i
              = map (\<lambda>x. case n of Finite m \<Rightarrow> round_float32 (x / m) | _ \<Rightarrow> Finite 0) row
          \<and> NaN \<notin> set (weight_direction_float32 W ! i))
       \<and> ((\<forall>x \<in> set row. x = 0) \<longrightarrow>
            n = Finite 0 \<and> weight_direction_float32 W ! i = map (\<lambda>x. NaN) row)"
proof -
  note r = direction_float32_row [OF assms(2), folded assms(1) assms(3), folded assms(4)]
  have iff: "n = Finite 0 \<longleftrightarrow> (\<forall>x \<in> set row. square_underflows x)"
    using norm_float32_cases [of row] float32_positive_nonzero [of n]
    unfolding assms(4) by blast
  have pos: "float32_positive n" if "n \<noteq> Finite 0"
    using norm_float32_cases [of row] that unfolding assms(4) by blast
  have zero: "weight_direction_float32 W ! i = map division_by_zero row" if "n = Finite 0"
    by (simp add: r(2) that float32_div_zero)
  have quot: "weight_direction_float32 W ! i
      = map (\<lambda>x. case n of Finite m \<Rightarrow> round_float32 (x / m) | _ \<Rightarrow> Finite 0) row"
    if "n \<noteq> Finite 0"
    using float32_div_positive(1) [OF pos [OF that]] by (simp add: r(2))
  have nonan: "NaN \<notin> set (weight_direction_float32 W ! i)" if "n \<noteq> Finite 0"
  proof
    assume "NaN \<in> set (weight_direction_float32 W ! i)"
    then obtain x where "NaN = float32_div (Finite x) n"
      by (auto simp: r(2))
    then have "float32_div (Finite x) n = NaN"
      by simp
    with float32_div_positive(2) [OF pos [OF that]] show False
      by blast
  qed
  have allzero: "n = Finite 0 \<and> weight_direction_float32 W ! i = map (\<lambda>x. NaN) row"
    if z: "\<forall>x \<in> set row. x = 0"
  proof -
    have "square_underflows 0"
      by (simp add: square_underflows_def power_int_minus)
    with z have "\<forall>x \<in> set row. square_underflows x"
      by auto
    with iff have n: "n = Finite 0"
      by simp
    from z have "map division_by_zero row = map (\<lambda>x. NaN) row"
      by (intro map_cong) (simp_all add: division_by_zero_def)
    with zero [OF n] n show ?thesis
      by simp
  qed
  from direction_float32_eq [of W] r iff pos zero quot nonan allzero show ?thesis
    by blast
qed

lemma example_rows_facts:
  "\<not> square_underflows 1" "square_underflows 0"
  by (simp_all add: square_underflows_def power_int_minus)

theorem direction_division_by_zero_iff_witness:
  "0 < length example_rows \<and> 1 < length example_rows
   \<and> norm_float32 (map Finite [1, 0]) \<noteq> Finite 0
   \<and> NaN \<notin> set (weight_direction_float32 (float32_matrix example_rows) ! 0)
   \<and> norm_float32 (map Finite [0, 0]) = Finite 0
   \<and> weight_direction_float32 (float32_matrix example_rows) ! 1 = [NaN, NaN]"
proof -
  have len: "0 < length example_rows" "1 < length example_rows"
    by (simp_all add: example_rows_def)
  have rows: "example_rows ! 0 = [1, 0]" "example_rows ! 1 = [0, 0]"
    by (simp_all add: example_rows_def)
  note first = direction_division_by_zero_iff [OF refl len(1) refl refl, unfolded rows(1)]
  note second = direction_division_by_zero_iff [OF refl len(2) refl refl, unfolded rows(2)]
  from first have "norm_float32 (map Finite [1, 0]) = Finite 0
      \<longleftrightarrow> (\<forall>x \<in> set [1, 0 :: real]. square_underflows x)"
    by blast
  then have 1: "norm_float32 (map Finite [1, 0]) \<noteq> Finite 0"
    by (simp add: example_rows_facts)
  with first have 2: "NaN \<notin> set (weight_direction_float32 (float32_matrix example_rows) ! 0)"
    by blast
  from second have "(\<forall>x \<in> set [0, 0 :: real]. x = 0) \<longrightarrow>
      norm_float32 (map Finite [0, 0]) = Finite 0
      \<and> weight_direction_float32 (float32_matrix example_rows) ! 1
          = map (\<lambda>x. NaN) [0, 0 :: real]"
    by blast
  then have 3: "norm_float32 (map Finite [0, 0]) = Finite 0"
    and 4: "weight_direction_float32 (float32_matrix example_rows) ! 1 = [NaN, NaN]"
    by simp_all
  from len 1 2 3 4 show ?thesis
    by blast
qed

lemma example_underflow_representable:
  "round_float32 (1 / 2 ^ 100) = Finite (1 / 2 ^ 100)"
proof -
  have "ulp_exponent (1 / 2 ^ 100) = -123"
    unfolding ulp_exponent_def by (simp add: upto.simps power_int_minus)
  then show ?thesis
    by (simp add: round_float32_def Let_def round_half_even_def power_int_minus)
qed

text \<open>
  C10 as stated fails on its precondition. The row \<open>(2^-100, 0)\<close> is nonzero, and
  \<open>2^-100\<close> is a float32 number; the square \<open>2^-200\<close> of its element rounds to 0, the
  computed norm of the row is 0, and the direction is \<open>(inf, nan)\<close>: the division by
  zero is reached on a nonzero row.
\<close>

theorem direction_underflow_counterexample:
  "(1 / 2 ^ 100 :: real) \<noteq> 0
   \<and> round_float32 (1 / 2 ^ 100) = Finite (1 / 2 ^ 100)
   \<and> weight_magnitude_float32 (float32_matrix example_underflow) = [Finite 0]
   \<and> weight_direction_float32 (float32_matrix example_underflow) = [[PosInf, NaN]]"
proof -
  have u: "\<forall>x \<in> set [1 / 2 ^ 100, 0 :: real]. square_underflows x"
    by (simp add: square_underflows_def power_int_minus)
  note n = norm_float32_cases(1) [OF u]
  have m: "weight_magnitude_float32 (float32_matrix example_underflow) = [Finite 0]"
    using n by (simp add: weight_magnitude_float32_def float32_matrix_def example_underflow_def)
  have d: "weight_direction_float32 (float32_matrix example_underflow) = [[PosInf, NaN]]"
    using n
    by (simp add: direction_float32_eq direction_float32_def float32_matrix_def
        example_underflow_def float32_div_zero division_by_zero_def)
  from m d example_underflow_representable show ?thesis
    by simp
qed

end
